theory Spec2Isabelle
  imports Main "HOL-Library.AList"
begin

section \<open>Values, property keys, sets and maps of the host language\<close>

text \<open>
  A property key is a string or a symbol. String keys are split in two: \<open>Idx i\<close> is the
  canonical decimal string of the array index \<open>i\<close>, and \<open>Named s\<close> is any other name
  (\<open>length\<close>, \<open>raw\<close>, \<open>foo\<close>), whose conversion to a number is not-a-number.
  \<open>Symb n\<close> is a symbol.
\<close>

datatype key = Idx nat | Named string | Symb nat

text \<open>
  Values: numbers are modelled by the integers plus the not-a-number sentinel; \<open>VObj\<close>
  is a reference to an object (a plain object, an array or a proxy), compared by
  identity; \<open>VFun\<close> is one of the instrumented array methods.
\<close>

datatype val = VUndef | VNull | VNaN | VNum int | VBool bool | VObj nat | VFun string

datatype jserr = TypeError | RangeError

datatype TriggerType = SET | ADD | DELETE

definition is_symbol :: "key \<Rightarrow> bool" where
  "is_symbol k = (case k of Symb _ \<Rightarrow> True | _ \<Rightarrow> False)"

text \<open>The operator \<open>===\<close>: not-a-number is different from itself.\<close>

definition strict_eq :: "val \<Rightarrow> val \<Rightarrow> bool" where
  "strict_eq a b = (a = b \<and> a \<noteq> VNaN)"

text \<open>The comparison of \<open>Array.prototype.includes\<close>, which finds not-a-number.\<close>

definition same_value_zero :: "val \<Rightarrow> val \<Rightarrow> bool" where
  "same_value_zero a b = (a = b)"

text \<open>
  Conversion of a value to a number (\<open>None\<close> is not-a-number). An object used as a
  number is taken as not-a-number.
\<close>

fun to_number :: "val \<Rightarrow> int option" where
  "to_number (VNum n) = Some n"
| "to_number VNull = Some 0"
| "to_number (VBool b) = Some (if b then 1 else 0)"
| "to_number _ = None"

text \<open>\<open>Number(key)\<close>: a symbol cannot be converted and raises.\<close>

fun key_to_number :: "key \<Rightarrow> jserr + int option" where
  "key_to_number (Idx i) = Inr (Some (int i))"
| "key_to_number (Named s) = Inr None"
| "key_to_number (Symb n) = Inl TypeError"

text \<open>\<open>key >= newValue\<close> with a string or symbol key on the left.\<close>

definition key_ge :: "key \<Rightarrow> val \<Rightarrow> jserr + bool" where
  "key_ge k v =
     (case key_to_number k of
        Inl e \<Rightarrow> Inl e
      | Inr None \<Rightarrow> Inr False
      | Inr (Some i) \<Rightarrow> (case to_number v of None \<Rightarrow> Inr False | Some n \<Rightarrow> Inr (n \<le> i)))"

text \<open>
  A \<open>Set\<close> is a list without duplicates in insertion order; a \<open>Map\<close> is an association
  list in insertion order (\<open>AList.update\<close> keeps the position of a key that is present
  and appends a new one, as \<open>Map.prototype.set\<close> does).
\<close>

definition set_add :: "'a \<Rightarrow> 'a list \<Rightarrow> 'a list" where
  "set_add x xs = (if x \<in> set xs then xs else xs @ [x])"

definition set_delete :: "'a \<Rightarrow> 'a list \<Rightarrow> 'a list" where
  "set_delete x xs = removeAll x xs"

definition lookup :: "(key \<times> val) list \<Rightarrow> key \<Rightarrow> val" where
  "lookup ps k = (case map_of ps k of None \<Rightarrow> VUndef | Some v \<Rightarrow> v)"

section \<open>The dependency store: bucket, cleanup, track\<close>

text \<open>
  \<open>bucket\<close> is the \<open>WeakMap\<close> from a target to its \<open>depsMap\<close>, a \<open>Map\<close> from a key to
  the \<open>Set\<close> of effects. Effects are numbered. \<open>effectFn.deps\<close> is a list of references
  to such sets; a set is created once for its (target, key) and never replaced, so the
  reference is the pair (target, key).
\<close>

record 't store =
  bucket :: "'t \<Rightarrow> (key \<times> nat list) list option"
  deps :: "nat \<Rightarrow> ('t \<times> key) list"
  activeEffect :: "nat option"
  effectStack :: "nat list"

type_synonym 't bucket_map = "'t \<Rightarrow> (key \<times> nat list) list option"

definition depsMap_of :: "'t bucket_map \<Rightarrow> 't \<Rightarrow> (key \<times> nat list) list" where
  "depsMap_of b t = (case b t of None \<Rightarrow> [] | Some m \<Rightarrow> m)"

text \<open>The set of effects stored for (target, key); empty when there is none.\<close>

definition subs :: "'t bucket_map \<Rightarrow> 't \<Rightarrow> key \<Rightarrow> nat list" where
  "subs b t k = (case map_of (depsMap_of b t) k of None \<Rightarrow> [] | Some es \<Rightarrow> es)"

text \<open>\<open>deps.delete(effectFn)\<close> for one entry of \<open>effectFn.deps\<close>.\<close>

definition bucket_delete :: "nat \<Rightarrow> ('t \<times> key) \<Rightarrow> 't bucket_map \<Rightarrow> 't bucket_map" where
  "bucket_delete e tk b =
     (case b (fst tk) of
        None \<Rightarrow> b
      | Some m \<Rightarrow> b(fst tk \<mapsto> AList.map_entry (snd tk) (set_delete e) m))"

text \<open>\<open>cleanup\<close>: the effect is deleted from every set of its \<open>deps\<close>, then \<open>deps\<close> is emptied.\<close>

definition cleanup :: "nat \<Rightarrow> ('t, 'a) store_scheme \<Rightarrow> ('t, 'a) store_scheme" where
  "cleanup e s = s\<lparr>bucket := fold (bucket_delete e) (deps s e) (bucket s), deps := (deps s)(e := [])\<rparr>"

text \<open>
  \<open>track\<close>: nothing without an active effect; otherwise find or create the \<open>depsMap\<close> of
  the target and the set of the key, add the active effect to the set and push the set
  on the effect's \<open>deps\<close>.
\<close>

definition bucket_add :: "nat \<Rightarrow> 't \<Rightarrow> key \<Rightarrow> 't bucket_map \<Rightarrow> 't bucket_map" where
  "bucket_add e target k b =
     b(target \<mapsto> AList.update k (set_add e (subs b target k)) (depsMap_of b target))"

definition track :: "'t \<Rightarrow> key \<Rightarrow> ('t, 'a) store_scheme \<Rightarrow> ('t, 'a) store_scheme" where
  "track target k s =
     (case activeEffect s of
        None \<Rightarrow> s
      | Some e \<Rightarrow>
          s\<lparr>bucket := bucket_add e target k (bucket s),
            deps := (deps s)(e := deps s e @ [(target, k)])\<rparr>)"

text \<open>
  The head of every \<open>trigger\<close>: \<open>effectsToRun = new Set(effects)\<close>, then every effect of
  \<open>effects\<close> other than the active one is added to \<open>effectsToRun\<close>.
\<close>

definition add_unless_active :: "nat option \<Rightarrow> nat list \<Rightarrow> nat list \<Rightarrow> nat list" where
  "add_unless_active active es acc =
     fold (\<lambda>e acc. if Some e \<noteq> active then set_add e acc else acc) es acc"

definition effectsToRun :: "nat list option \<Rightarrow> nat option \<Rightarrow> nat list" where
  "effectsToRun effects active =
     (let copy = (case effects of None \<Rightarrow> [] | Some es \<Rightarrow> es)
      in case effects of None \<Rightarrow> copy | Some es \<Rightarrow> add_unless_active active es copy)"

section \<open>The interception layer with modes (shallow, read-only) and arrays\<close>

text \<open>
  Objects of the heap: a plain object with its own properties, an array with its
  elements and its other own properties, a proxy made by \<open>getProxyObj\<close> with the
  target and the two flags its traps close over, or a plain object made by
  \<open>Object.create(p)\<close>: its own properties and its prototype \<open>p\<close>. \<open>Rec\<close> and \<open>Arr\<close> have
  the prototypes the language gives them, with no property of interest: a property that
  is not an own property reads as undefined. \<open>frozen\<close> says which objects went through
  \<open>Object.freeze\<close>: no property of such an object can be written, added or deleted.
  Single properties that are not writable, and accessors, are not modelled.
\<close>

datatype jsobj =
    Rec "(key \<times> val) list"
  | Arr "val list" "(key \<times> val) list"
  | Prx nat bool bool
  | Heir "(key \<times> val) list" nat

record rstate = "nat store" +
  heap :: "nat \<Rightarrow> jsobj option"
  frozen :: "nat \<Rightarrow> bool"
  nextId :: nat
  reactiveMap :: "(nat \<times> nat) list"
  shouldTrack :: bool
  warnings :: "key list"

definition ITERATE_KEY :: key where
  "ITERATE_KEY = Symb 0"

definition isArray :: "rstate \<Rightarrow> nat \<Rightarrow> bool" where
  "isArray s t = (case heap s t of Some (Arr _ _) \<Rightarrow> True | _ \<Rightarrow> False)"

text \<open>
  \<open>target[key]\<close> and \<open>Reflect.get\<close> on an object that is not a proxy: its own property.
  A read of an inherited property through an object made by \<open>Object.create\<close> is modelled
  for the property \<open>raw\<close> only, below.
\<close>

fun prop_get :: "jsobj option \<Rightarrow> key \<Rightarrow> val" where
  "prop_get (Some (Rec ps)) k = lookup ps k"
| "prop_get (Some (Heir ps p)) k = lookup ps k"
| "prop_get (Some (Arr es xs)) (Idx i) = (if i < length es then es ! i else VUndef)"
| "prop_get (Some (Arr es xs)) k =
     (if k = Named ''length'' then VNum (int (length es)) else lookup xs k)"
| "prop_get _ k = VUndef"

text \<open>\<open>Object.prototype.hasOwnProperty.call(target, key)\<close>.\<close>

fun has_own :: "jsobj option \<Rightarrow> key \<Rightarrow> bool" where
  "has_own (Some (Rec ps)) k = (k \<in> fst ` set ps)"
| "has_own (Some (Heir ps p)) k = (k \<in> fst ` set ps)"
| "has_own (Some (Arr es xs)) (Idx i) = (i < length es)"
| "has_own (Some (Arr es xs)) k = (k = Named ''length'' \<or> k \<in> fst ` set xs)"
| "has_own _ k = False"

text \<open>
  The write of \<open>Reflect.set\<close> on the object that receives it, when the object is not
  frozen. An array grows when an index at or beyond its length is written; writing its
  length cuts or pads it, and raises a range error when the value is not a valid length.
\<close>

fun prop_set :: "jsobj \<Rightarrow> key \<Rightarrow> val \<Rightarrow> jserr + jsobj" where
  "prop_set (Rec ps) k v = Inr (Rec (AList.update k v ps))"
| "prop_set (Heir ps p) k v = Inr (Heir (AList.update k v ps) p)"
| "prop_set (Arr es xs) (Idx i) v =
     Inr (Arr (if i < length es then es[i := v]
               else es @ replicate (i - length es) VUndef @ [v]) xs)"
| "prop_set (Arr es xs) k v =
     (if k = Named ''length'' then
        (case to_number v of
           None \<Rightarrow> Inl RangeError
         | Some n \<Rightarrow>
             if 0 \<le> n \<and> n < 4294967296
             then Inr (Arr (take (nat n) es @ replicate (nat n - length es) VUndef) xs)
             else Inl RangeError)
      else Inr (Arr es (AList.update k v xs)))"
| "prop_set (Prx t sh ro) k v = Inr (Prx t sh ro)"

text \<open>
  \<open>getProxyObj(obj, isShallow, isReadonly)\<close>: the proxy stored in \<open>reactiveMap\<close> for
  \<open>obj\<close> when there is one, otherwise a new proxy, stored under \<open>obj\<close>.
\<close>

definition getProxyObj :: "nat \<Rightarrow> bool \<Rightarrow> bool \<Rightarrow> rstate \<Rightarrow> nat \<times> rstate" where
  "getProxyObj obj isShallow isReadonly s =
     (case map_of (reactiveMap s) obj of
        Some existionProxy \<Rightarrow> (existionProxy, s)
      | None \<Rightarrow>
          (let proxy = nextId s
           in (proxy, s\<lparr>heap := (heap s)(proxy \<mapsto> Prx obj isShallow isReadonly),
                        nextId := Suc proxy,
                        reactiveMap := AList.update obj proxy (reactiveMap s)\<rparr>)))"

text \<open>\<open>track\<close> of this variant also does nothing while \<open>shouldTrack\<close> is false.\<close>

definition track3 :: "nat \<Rightarrow> key \<Rightarrow> rstate \<Rightarrow> rstate" where
  "track3 target k s = (if activeEffect s = None \<or> \<not> shouldTrack s then s else track target k s)"

definition instrumented :: "string list" where
  "instrumented = [''includes'', ''indexOf'', ''lastIndexOf'',
                   ''push'', ''pop'', ''shift'', ''unshift'', ''splice'']"

text \<open>The \<open>get\<close> trap of the proxy made for \<open>target\<close> with the two flags.\<close>

definition get3 :: "nat \<Rightarrow> bool \<Rightarrow> bool \<Rightarrow> key \<Rightarrow> rstate \<Rightarrow> val \<times> rstate" where
  "get3 target isShallow isReadonly k s =
     (if k = Named ''raw'' then (VObj target, s)
      else case (if isArray s target then
                   (case k of Named m \<Rightarrow> if m \<in> set instrumented then Some m else None
                            | _ \<Rightarrow> None)
                 else None) of
        Some m \<Rightarrow> (VFun m, s)
      | None \<Rightarrow>
          (let s1 = (if \<not> isReadonly \<and> \<not> is_symbol k then track3 target k s else s);
               res = prop_get (heap s1 target) k
           in if isShallow then (res, s1)
              else case res of
                     VObj ob \<Rightarrow>
                       (let (p, s2) = getProxyObj ob isShallow isReadonly s1 in (VObj p, s2))
                   | _ \<Rightarrow> (res, s1)))"

text \<open>The \<open>has\<close> trap: it tracks whatever the flags and the key are.\<close>

definition has3 :: "nat \<Rightarrow> key \<Rightarrow> rstate \<Rightarrow> bool \<times> rstate" where
  "has3 target k s = (let s1 = track3 target k s in (has_own (heap s1 target) k, s1))"

text \<open>
  What a trap hands back: the value it returns, the call of \<open>trigger\<close> it made (target,
  key, type, new value) when it made one, and the state after it.
\<close>

record trap_result =
  returned :: bool
  triggered :: "(nat \<times> key \<times> TriggerType \<times> val) option"
  after :: rstate

text \<open>
  \<open>receiver.raw\<close>. The \<open>get\<close> trap of a proxy answers with its target, before anything
  else. Any other object answers with its own property \<open>raw\<close>; an object made by
  \<open>Object.create\<close> that has no such property asks its prototype, and so reaches the
  \<open>get\<close> trap when a proxy is on its prototype chain. A chain of objects has no more
  links than there are objects.
\<close>

fun raw_chain :: "nat \<Rightarrow> (nat \<Rightarrow> jsobj option) \<Rightarrow> nat \<Rightarrow> val" where
  "raw_chain 0 h receiver = VUndef"
| "raw_chain (Suc n) h receiver =
     (case h receiver of
        Some (Prx t sh ro) \<Rightarrow> VObj t
      | Some (Heir ps p) \<Rightarrow>
          if Named ''raw'' \<in> fst ` set ps then lookup ps (Named ''raw'') else raw_chain n h p
      | ob \<Rightarrow> prop_get ob (Named ''raw''))"

definition raw_of :: "rstate \<Rightarrow> nat \<Rightarrow> val" where
  "raw_of s receiver = raw_chain (Suc (nextId s)) (heap s) receiver"

text \<open>
  \<open>Reflect.set(target, key, newValue, receiver)\<close> on data properties. The property is
  written on the receiver, that is on the object behind it when the receiver is a
  proxy. Nothing is written and the result is false when the target has the property
  and is frozen, or when the object that would be written is frozen.
\<close>

definition written_object :: "rstate \<Rightarrow> nat \<Rightarrow> nat" where
  "written_object s receiver =
     (case heap s receiver of Some (Prx t sh ro) \<Rightarrow> t | _ \<Rightarrow> receiver)"

definition reflect_set :: "nat \<Rightarrow> key \<Rightarrow> val \<Rightarrow> nat \<Rightarrow> rstate \<Rightarrow> jserr + (bool \<times> rstate)" where
  "reflect_set target k newValue receiver s =
     (let w = written_object s receiver
      in if (frozen s target \<and> has_own (heap s target) k) \<or> frozen s w then Inr (False, s)
         else case heap s w of
           None \<Rightarrow> Inr (False, s)
         | Some ob \<Rightarrow>
             (case prop_set ob k newValue of
                Inl e \<Rightarrow> Inl e
              | Inr ob' \<Rightarrow> Inr (True, s\<lparr>heap := (heap s)(w \<mapsto> ob')\<rparr>)))"

text \<open>
  \<open>console.warn\<close> of the read-only traps. The message is a template literal over the
  key, and a symbol cannot be converted to a string: the conversion raises.
\<close>

definition warn_readonly :: "key \<Rightarrow> rstate \<Rightarrow> jserr + rstate" where
  "warn_readonly k s =
     (if is_symbol k then Inl TypeError else Inr (s\<lparr>warnings := warnings s @ [k]\<rparr>))"

text \<open>
  The classification of a write: on an array \<open>Number(key) < target.length\<close>, otherwise
  whether the key is an own property.
\<close>

definition set_type :: "rstate \<Rightarrow> nat \<Rightarrow> key \<Rightarrow> jserr + TriggerType" where
  "set_type s target k =
     (if isArray s target then
        (case key_to_number k of
           Inl e \<Rightarrow> Inl e
         | Inr n \<Rightarrow>
             (case (n, to_number (prop_get (heap s target) (Named ''length''))) of
                (Some i, Some len) \<Rightarrow> Inr (if i < len then SET else ADD)
              | _ \<Rightarrow> Inr ADD))
      else Inr (if has_own (heap s target) k then SET else ADD))"

text \<open>The \<open>set\<close> trap of the proxy made for \<open>target\<close>.\<close>

definition set3 :: "nat \<Rightarrow> bool \<Rightarrow> key \<Rightarrow> val \<Rightarrow> nat \<Rightarrow> rstate \<Rightarrow> jserr + trap_result" where
  "set3 target isReadonly k newValue receiver s =
     (if isReadonly then
        (case warn_readonly k s of
           Inl e \<Rightarrow> Inl e
         | Inr s1 \<Rightarrow> Inr \<lparr>returned = True, triggered = None, after = s1\<rparr>)
      else
        (let oldValue = prop_get (heap s target) k
         in case set_type s target k of
              Inl e \<Rightarrow> Inl e
            | Inr type \<Rightarrow>
                (case reflect_set target k newValue receiver s of
                   Inl e \<Rightarrow> Inl e
                 | Inr (res, s1) \<Rightarrow>
                     Inr \<lparr>returned = res,
                          triggered =
                            (if strict_eq (VObj target) (raw_of s1 receiver) then
                               (if \<not> strict_eq oldValue newValue \<and>
                                   (strict_eq oldValue oldValue \<or> strict_eq newValue newValue)
                                then Some (target, k, type, newValue) else None)
                             else None),
                          after = s1\<rparr>)))"

text \<open>
  \<open>Reflect.deleteProperty\<close> on an object that is not frozen: the length of an array
  cannot be deleted; a deleted array element reads as undefined afterwards (holes are not
  modelled).
\<close>

fun delete_prop :: "jsobj \<Rightarrow> key \<Rightarrow> bool \<times> jsobj" where
  "delete_prop (Rec ps) k = (True, Rec (AList.delete k ps))"
| "delete_prop (Heir ps p) k = (True, Heir (AList.delete k ps) p)"
| "delete_prop (Arr es xs) (Idx i) = (True, Arr (if i < length es then es[i := VUndef] else es) xs)"
| "delete_prop (Arr es xs) k =
     (if k = Named ''length'' then (False, Arr es xs) else (True, Arr es (AList.delete k xs)))"
| "delete_prop (Prx t sh ro) k = (True, Prx t sh ro)"

text \<open>
  The \<open>deleteProperty\<close> trap. \<open>Reflect.deleteProperty\<close> returns false, and deletes
  nothing, for an own property of a frozen object.
\<close>

definition deleteProperty3 :: "nat \<Rightarrow> bool \<Rightarrow> key \<Rightarrow> rstate \<Rightarrow> jserr + trap_result" where
  "deleteProperty3 target isReadonly k s =
     (if isReadonly then
        (case warn_readonly k s of
           Inl e \<Rightarrow> Inl e
         | Inr s1 \<Rightarrow> Inr \<lparr>returned = True, triggered = None, after = s1\<rparr>)
      else
        (let hadKey = has_own (heap s target) k
         in case heap s target of
              None \<Rightarrow> Inr \<lparr>returned = True, triggered = None, after = s\<rparr>
            | Some ob \<Rightarrow>
                (let (res, ob') = (if frozen s target \<and> hadKey then (False, ob)
                                   else delete_prop ob k);
                     s1 = s\<lparr>heap := (heap s)(target \<mapsto> ob')\<rparr>
                 in Inr \<lparr>returned = res,
                         triggered = (if res \<and> hadKey then Some (target, k, DELETE, VUndef) else None),
                         after = s1\<rparr>)))"

text \<open>
  \<open>trigger(target, key, type, newValue)\<close> of this variant, up to the loop that runs the
  effects: the result is \<open>effectsToRun\<close> in the order the loop visits it. The walk over
  \<open>depsMap\<close> for a write of an array's length compares every key of the map with the
  new length.
\<close>

fun length_fanout :: "(key \<times> nat list) list \<Rightarrow> val \<Rightarrow> nat option \<Rightarrow> nat list \<Rightarrow> jserr + nat list" where
  "length_fanout [] newValue active acc = Inr acc"
| "length_fanout ((k, effects) # m) newValue active acc =
     (case key_ge k newValue of
        Inl e \<Rightarrow> Inl e
      | Inr b \<Rightarrow>
          length_fanout m newValue active
            (if b then add_unless_active active effects acc else acc))"

definition add_key_effects :: "(key \<times> nat list) list \<Rightarrow> key \<Rightarrow> nat option \<Rightarrow> nat list \<Rightarrow> nat list" where
  "add_key_effects depsMap k active acc =
     (case map_of depsMap k of None \<Rightarrow> acc | Some es \<Rightarrow> add_unless_active active es acc)"

definition trigger3 :: "nat \<Rightarrow> key \<Rightarrow> TriggerType \<Rightarrow> val \<Rightarrow> rstate \<Rightarrow> jserr + nat list" where
  "trigger3 target k type newValue s =
     (case bucket s target of
        None \<Rightarrow> Inr []
      | Some depsMap \<Rightarrow>
          (let run0 = effectsToRun (map_of depsMap k) (activeEffect s)
           in case (if isArray s target \<and> k = Named ''length''
                    then length_fanout depsMap newValue (activeEffect s) run0
                    else Inr run0) of
                Inl e \<Rightarrow> Inl e
              | Inr run1 \<Rightarrow>
                  (let run2 = (if type = ADD \<and> isArray s target
                               then add_key_effects depsMap (Named ''length'') (activeEffect s) run1
                               else run1);
                       run3 = (if type = ADD \<or> type = DELETE
                               then add_key_effects depsMap ITERATE_KEY (activeEffect s) run2
                               else run2)
                   in Inr run3)))"

text \<open>
  One run of an effect of this variant: \<open>cleanup\<close>, the effect becomes the active one
  and is pushed, the body runs, the stack is popped and the active effect is the new top.
\<close>

definition effectFn3 :: "nat \<Rightarrow> (rstate \<Rightarrow> rstate) \<Rightarrow> rstate \<Rightarrow> rstate" where
  "effectFn3 e fn s =
     (let s1 = cleanup e s;
          s2 = s1\<lparr>activeEffect := Some e, effectStack := effectStack s1 @ [e]\<rparr>;
          s3 = fn s2;
          stack = butlast (effectStack s3)
      in s3\<lparr>effectStack := stack,
            activeEffect := (if stack = [] then None else Some (last stack))\<rparr>)"

subsection \<open>The instrumented search methods of arrays\<close>

datatype search_method = Includes | IndexOf | LastIndexOf

text \<open>
  The original methods running on the proxy: they read the length and then the
  elements through the \<open>get\<close> trap (\<open>indexOf\<close> and \<open>lastIndexOf\<close> ask the \<open>has\<close> trap
  first), and stop at the first match.
\<close>

fun includes_loop :: "nat \<Rightarrow> bool \<Rightarrow> bool \<Rightarrow> val \<Rightarrow> nat \<Rightarrow> nat \<Rightarrow> rstate \<Rightarrow> val \<times> rstate" where
  "includes_loop t sh ro x k 0 s = (VBool False, s)"
| "includes_loop t sh ro x k (Suc n) s =
     (let (elementK, s1) = get3 t sh ro (Idx k) s
      in if same_value_zero x elementK then (VBool True, s1)
         else includes_loop t sh ro x (Suc k) n s1)"

fun indexOf_loop :: "nat \<Rightarrow> bool \<Rightarrow> bool \<Rightarrow> val \<Rightarrow> nat \<Rightarrow> nat \<Rightarrow> rstate \<Rightarrow> val \<times> rstate" where
  "indexOf_loop t sh ro x k 0 s = (VNum (- 1), s)"
| "indexOf_loop t sh ro x k (Suc n) s =
     (let (kPresent, s1) = has3 t (Idx k) s
      in if kPresent then
           (let (elementK, s2) = get3 t sh ro (Idx k) s1
            in if strict_eq x elementK then (VNum (int k), s2)
               else indexOf_loop t sh ro x (Suc k) n s2)
         else indexOf_loop t sh ro x (Suc k) n s1)"

fun lastIndexOf_loop :: "nat \<Rightarrow> bool \<Rightarrow> bool \<Rightarrow> val \<Rightarrow> nat \<Rightarrow> rstate \<Rightarrow> val \<times> rstate" where
  "lastIndexOf_loop t sh ro x 0 s = (VNum (- 1), s)"
| "lastIndexOf_loop t sh ro x (Suc k) s =
     (let (kPresent, s1) = has3 t (Idx k) s
      in if kPresent then
           (let (elementK, s2) = get3 t sh ro (Idx k) s1
            in if strict_eq x elementK then (VNum (int k), s2)
               else lastIndexOf_loop t sh ro x k s2)
         else lastIndexOf_loop t sh ro x k s1)"

definition to_length :: "val \<Rightarrow> nat" where
  "to_length v = (case to_number v of None \<Rightarrow> 0 | Some n \<Rightarrow> nat n)"

definition origin_on_proxy :: "search_method \<Rightarrow> nat \<Rightarrow> bool \<Rightarrow> bool \<Rightarrow> val \<Rightarrow> rstate \<Rightarrow> val \<times> rstate" where
  "origin_on_proxy m t sh ro x s =
     (let (len, s1) = get3 t sh ro (Named ''length'') s
      in case m of
           Includes \<Rightarrow> includes_loop t sh ro x 0 (to_length len) s1
         | IndexOf \<Rightarrow> indexOf_loop t sh ro x 0 (to_length len) s1
         | LastIndexOf \<Rightarrow> lastIndexOf_loop t sh ro x (to_length len) s1)"

text \<open>The original methods running on the raw array.\<close>

fun index_from :: "val \<Rightarrow> val list \<Rightarrow> nat \<Rightarrow> val" where
  "index_from x [] k = VNum (- 1)"
| "index_from x (e # es) k = (if strict_eq x e then VNum (int k) else index_from x es (Suc k))"

fun last_index :: "val \<Rightarrow> val list \<Rightarrow> nat \<Rightarrow> val" where
  "last_index x es 0 = VNum (- 1)"
| "last_index x es (Suc k) = (if strict_eq x (es ! k) then VNum (int k) else last_index x es k)"

definition origin_on_raw :: "search_method \<Rightarrow> jsobj option \<Rightarrow> val \<Rightarrow> val" where
  "origin_on_raw m ob x =
     (case ob of
        Some (Arr es xs) \<Rightarrow>
          (case m of
             Includes \<Rightarrow> VBool (list_ex (same_value_zero x) es)
           | IndexOf \<Rightarrow> index_from x es 0
           | LastIndexOf \<Rightarrow> last_index x es (length es))
      | _ \<Rightarrow> (case m of Includes \<Rightarrow> VBool False | _ \<Rightarrow> VNum (- 1)))"

text \<open>
  \<open>arrayInstrumentations[method]\<close> called on the proxy \<open>this\<close> with one argument: the
  search on the proxy, and the search on \<open>this.raw\<close> when the first result is
  \<open>=== false\<close>. The source has no semicolon between \<open>let shouldTrack = true\<close> and the two
  \<open>forEach\<close> statements that fill the table, each on a line that starts with a bracket;
  they are taken as the three statements that the layout shows.
\<close>

definition arrayInstrumentations :: "search_method \<Rightarrow> nat \<Rightarrow> val \<Rightarrow> rstate \<Rightarrow> val \<times> rstate" where
  "arrayInstrumentations m this x s =
     (case heap s this of
        Some (Prx t sh ro) \<Rightarrow>
          (let (res, s1) = origin_on_proxy m t sh ro x s
           in if strict_eq res (VBool False)
              then (case raw_of s1 this of
                      VObj r \<Rightarrow> (origin_on_raw m (heap s1 r) x, s1)
                    | _ \<Rightarrow> (origin_on_raw m None x, s1))
              else (res, s1))
      | _ \<Rightarrow> (VUndef, s))"

section \<open>The reactive core: effects, schedulers, computed and watch\<close>

text \<open>
  The variants with \<open>computed\<close>, with \<open>watch\<close> and with the batching scheduler share
  \<open>effect\<close>, \<open>cleanup\<close>, \<open>track\<close> and \<open>trigger\<close>; their proxy is the plain one, whose
  \<open>get\<close> trap tracks and reads and whose \<open>set\<close> trap writes and triggers (the scripts
  are not in strict mode, so nothing is made of what the \<open>set\<close> trap returns).

  A target of \<open>track\<close> and \<open>trigger\<close> is a raw object behind a proxy or the object of a
  computed cell. The body of an effect is a closure in the source; here it is an
  expression over the proxies: \<open>Get ob k\<close> reads \<open>k\<close> through the proxy of object \<open>ob\<close>,
  \<open>Put ob k x\<close> writes through it, \<open>CellValue c\<close> reads \<open>c.value\<close> of a computed cell.
  \<open>Put ob k (Plus (Get ob k) (Lit (VNum 1)))\<close> is an increment of a tracked property.
  Bodies do not register further effects.
\<close>

datatype target = Obj nat | Cell nat

datatype expr =
    Lit val
  | Get nat key
  | Put nat key expr
  | Plus expr expr
  | Cond expr expr expr
  | Seq expr expr
  | CellValue nat

text \<open>
  The schedulers the source gives to \<open>effect\<close>: none, the batching one
  (\<open>jobQueue.add(fn); flushJob()\<close>), the one of \<open>computed\<close> and the one of \<open>watch\<close>.
\<close>

datatype sched = NoScheduler | BatchScheduler | ComputedScheduler | WatchScheduler

record effect_rec =
  fn :: expr
  lazy :: bool
  scheduler :: sched

text \<open>
  The variables \<open>value\<close> and \<open>dirty\<close> of a computed cell. A cell, and a watcher as
  well, is known by the number of the effect it owns.
\<close>

record cell =
  cvalue :: val
  dirty :: bool

text \<open>
  The variables of one \<open>watch\<close>: \<open>newValue\<close>, \<open>oldValue\<close>, whether an invalidate
  handler is stored in \<open>cleanup\<close>, whether \<open>options.flush\<close> is \<open>post\<close>, and what the
  user callback does besides being called: whether it calls \<open>onInvalidate\<close>.
\<close>

record watcher =
  w_newValue :: val
  w_oldValue :: val
  wcleanup :: bool
  flush_post :: bool
  cb_registers :: bool

text \<open>
  The microtasks: the flush of the job queue, the \<open>finally\<close> handler that follows it,
  and the job of a watcher with \<open>flush: post\<close>.
\<close>

datatype mtask = FlushJobs | FlushDone | WatchJob nat

text \<open>
  The log records what the claims count and the program does not store: a body starts to
  run, a tracked read (with the effect whose body reads, \<open>None\<close> for the top level), a
  call of a watcher's callback with the new and the old value, a call of an invalidate
  handler.
\<close>

datatype event = Run nat | Read "nat option" target key | Callback nat val val | Invalidate nat

record state = "target store" +
  objs :: "nat \<Rightarrow> (key \<times> val) list"
  effs :: "nat \<Rightarrow> effect_rec"
  nEffects :: nat
  cells :: "nat \<Rightarrow> cell"
  watchers :: "nat \<Rightarrow> watcher"
  jobQueue :: "nat list"
  isFlushing :: bool
  microtasks :: "mtask list"
  log :: "event list"

text \<open>\<open>a + b\<close> on numbers; an operand that is no number gives not-a-number.\<close>

definition js_plus :: "val \<Rightarrow> val \<Rightarrow> val" where
  "js_plus a b = (case (to_number a, to_number b) of (Some x, Some y) \<Rightarrow> VNum (x + y) | _ \<Rightarrow> VNaN)"

fun truthy :: "val \<Rightarrow> bool" where
  "truthy VUndef = False"
| "truthy VNull = False"
| "truthy VNaN = False"
| "truthy (VNum n) = (n \<noteq> 0)"
| "truthy (VBool b) = b"
| "truthy _ = True"

text \<open>
  \<open>flushJob\<close>: nothing while a flush is pending; otherwise the flag is set and the
  flush is queued as a microtask.
\<close>

definition flushJob :: "state \<Rightarrow> state" where
  "flushJob s = (if isFlushing s then s
                 else s\<lparr>isFlushing := True, microtasks := microtasks s @ [FlushJobs]\<rparr>)"

text \<open>
  The scheduler of the batching variant: \<open>jobQueue.add(fn); flushJob()\<close>.
\<close>

definition batch_scheduler :: "nat \<Rightarrow> state \<Rightarrow> state" where
  "batch_scheduler e s = flushJob (s\<lparr>jobQueue := set_add e (jobQueue s)\<rparr>)"

definition emit :: "event \<Rightarrow> state \<Rightarrow> state" where
  "emit ev s = s\<lparr>log := log s @ [ev]\<rparr>"

text \<open>
  The interpreter. \<open>eval\<close> runs an expression of the body of \<open>cur\<close>; \<open>trigger\<close> is
  \<open>trigger(target, key)\<close>; \<open>run_effects\<close> is the loop over \<open>effectsToRun\<close> and \<open>invoke\<close>
  its body (the scheduler when there is one, the effect otherwise); \<open>job\<close> is the job of
  a watcher; \<open>effectFn\<close> is one run of an effect. \<open>CellValue c\<close> is \<open>c.value\<close>: the getter of
  the cell when \<open>c\<close> was made by \<open>computed\<close>, and \<open>undefined\<close>, the property being absent,
  when it was not. An effect can trigger itself or
  another effect without end, so the functions take fuel: \<open>None\<close> means that the fuel
  ran out, and a computation that returns \<open>None\<close> for every fuel never returns.
\<close>

function (sequential)
    eval :: "nat \<Rightarrow> nat option \<Rightarrow> expr \<Rightarrow> state \<Rightarrow> (val \<times> state) option"
and trigger :: "nat \<Rightarrow> target \<Rightarrow> key \<Rightarrow> state \<Rightarrow> state option"
and run_effects :: "nat \<Rightarrow> nat list \<Rightarrow> state \<Rightarrow> state option"
and invoke :: "nat \<Rightarrow> nat \<Rightarrow> state \<Rightarrow> state option"
and job :: "nat \<Rightarrow> nat \<Rightarrow> state \<Rightarrow> state option"
and effectFn :: "nat \<Rightarrow> nat \<Rightarrow> state \<Rightarrow> (val \<times> state) option"
where
  "eval n cur (Lit v) s = Some (v, s)"
| "eval n cur (Get ob k) s =
     (let s1 = track (Obj ob) k (emit (Read cur (Obj ob) k) s)
      in Some (lookup (objs s1 ob) k, s1))"
| "eval n cur (Put ob k x) s =
     (case eval n cur x s of
        None \<Rightarrow> None
      | Some (v, s1) \<Rightarrow>
          (case trigger n (Obj ob) k (s1\<lparr>objs := (objs s1)(ob := AList.update k v (objs s1 ob))\<rparr>) of
             None \<Rightarrow> None
           | Some s2 \<Rightarrow> Some (v, s2)))"
| "eval n cur (Plus a b) s =
     (case eval n cur a s of
        None \<Rightarrow> None
      | Some (va, s1) \<Rightarrow>
          (case eval n cur b s1 of
             None \<Rightarrow> None
           | Some (vb, s2) \<Rightarrow> Some (js_plus va vb, s2)))"
| "eval n cur (Cond c a b) s =
     (case eval n cur c s of
        None \<Rightarrow> None
      | Some (vc, s1) \<Rightarrow> if truthy vc then eval n cur a s1 else eval n cur b s1)"
| "eval n cur (Seq a b) s =
     (case eval n cur a s of
        None \<Rightarrow> None
      | Some (va, s1) \<Rightarrow> eval n cur b s1)"
| "eval n cur (CellValue c) s =
     (if scheduler (effs s c) \<noteq> ComputedScheduler then Some (VUndef, s)
      else case (if dirty (cells s c) then
              (case effectFn n c s of
                 None \<Rightarrow> None
               | Some (v, s1) \<Rightarrow>
                   Some (s1\<lparr>cells := (cells s1)(c := (cells s1 c)\<lparr>cvalue := v, dirty := False\<rparr>)\<rparr>))
            else Some s) of
        None \<Rightarrow> None
      | Some s2 \<Rightarrow>
          (let s3 = track (Cell c) (Named ''value'') (emit (Read cur (Cell c) (Named ''value'')) s2)
           in Some (cvalue (cells s3 c), s3)))"
| "trigger 0 target k s = None"
| "trigger (Suc n) target k s =
     (case bucket s target of
        None \<Rightarrow> Some s
      | Some depsMap \<Rightarrow> run_effects n (effectsToRun (map_of depsMap k) (activeEffect s)) s)"
| "run_effects n [] s = Some s"
| "run_effects n (e # es) s =
     (case invoke n e s of
        None \<Rightarrow> None
      | Some s1 \<Rightarrow> run_effects n es s1)"
| "invoke n e s =
     (case scheduler (effs s e) of
        NoScheduler \<Rightarrow> map_option snd (effectFn n e s)
      | BatchScheduler \<Rightarrow> Some (batch_scheduler e s)
      | ComputedScheduler \<Rightarrow>
          trigger n (Cell e) (Named ''value'')
            (s\<lparr>cells := (cells s)(e := (cells s e)\<lparr>dirty := True\<rparr>)\<rparr>)
      | WatchScheduler \<Rightarrow>
          if flush_post (watchers s e)
          then Some (s\<lparr>microtasks := microtasks s @ [WatchJob e]\<rparr>)
          else job n e s)"
| "job n w s =
     (case effectFn n w s of
        None \<Rightarrow> None
      | Some (v, s1) \<Rightarrow>
          (let s2 = (if wcleanup (watchers s1 w) then emit (Invalidate w) s1 else s1);
               s3 = emit (Callback w v (w_oldValue (watchers s2 w))) s2;
               reg = (cb_registers (watchers s3 w) \<or> wcleanup (watchers s3 w))
           in Some (s3\<lparr>watchers := (watchers s3)
                      (w := (watchers s3 w)\<lparr>w_newValue := v, w_oldValue := v, wcleanup := reg\<rparr>)\<rparr>)))"
| "effectFn 0 e s = None"
| "effectFn (Suc n) e s =
     (let s1 = cleanup e s;
          s2 = emit (Run e) (s1\<lparr>activeEffect := Some e, effectStack := effectStack s1 @ [e]\<rparr>)
      in case eval n (Some e) (fn (effs s2 e)) s2 of
           None \<Rightarrow> None
         | Some (res, s3) \<Rightarrow>
             (let stack = butlast (effectStack s3)
              in Some (res, s3\<lparr>effectStack := stack,
                               activeEffect := (if stack = [] then None else Some (last stack))\<rparr>)))"
  by pat_completeness auto
termination
  by (relation "inv_image (less_than <*lex*> less_than)
        (\<lambda>x. case x of
           Inl (Inl (n, cur, e, s)) \<Rightarrow> (n, 1 + size e)
         | Inl (Inr (Inl (n, t, k, s))) \<Rightarrow> (n, 0)
         | Inl (Inr (Inr (n, es, s))) \<Rightarrow> (n, 3 + length es)
         | Inr (Inl (n, e, s)) \<Rightarrow> (n, 2)
         | Inr (Inr (Inl (n, w, s))) \<Rightarrow> (n, 1)
         | Inr (Inr (Inr (n, e, s))) \<Rightarrow> (n, 0))")
     auto


text \<open>\<open>effect(fn, options)\<close>: a new effect, run at once unless it is lazy.\<close>

definition new_effect :: "expr \<Rightarrow> bool \<Rightarrow> sched \<Rightarrow> state \<Rightarrow> nat \<times> state" where
  "new_effect body lz sch s =
     (let e = nEffects s
      in (e, s\<lparr>effs := (effs s)(e := \<lparr>fn = body, lazy = lz, scheduler = sch\<rparr>),
               nEffects := Suc e,
               deps := (deps s)(e := [])\<rparr>))"

definition effect :: "nat \<Rightarrow> expr \<Rightarrow> bool \<Rightarrow> sched \<Rightarrow> state \<Rightarrow> (nat \<times> state) option" where
  "effect n body lz sch s =
     (let (e, s1) = new_effect body lz sch s
      in if \<not> lz then (case effectFn n e s1 of None \<Rightarrow> None | Some (v, s2) \<Rightarrow> Some (e, s2))
         else Some (e, s1))"


text \<open>
  The third argument of \<open>watch\<close>, when it is an object: whether \<open>options.immediate\<close> is
  set, and \<open>options.flush\<close> when there is one.
\<close>

record watch_options =
  immediate :: bool
  flush :: "string option"

text \<open>What a call of \<open>watch\<close> ends with: it returns, or it raises.\<close>

datatype watch_outcome = Watching nat state | Raised jserr state

text \<open>
  \<open>watch(source, cb, options)\<close> with a getter as source; \<open>registers\<close> says whether the
  callback calls \<open>onInvalidate\<close>. The parameter \<open>options\<close> has no default value: in a
  call with two arguments it is undefined, and \<open>options.immediate\<close> raises a type error.
  At that point the lazy effect has been made and has not run; nothing refers to it, so
  it can never be run or scheduled afterwards.
\<close>

definition watch :: "nat \<Rightarrow> expr \<Rightarrow> bool \<Rightarrow> watch_options option \<Rightarrow> state \<Rightarrow> watch_outcome option" where
  "watch n getter registers options s =
     (let (w, s1) = new_effect getter True WatchScheduler s
      in case options of
           None \<Rightarrow> Some (Raised TypeError s1)
         | Some opts \<Rightarrow>
             (let s2 = s1\<lparr>watchers := (watchers s1)
                         (w := \<lparr>w_newValue = VUndef, w_oldValue = VUndef, wcleanup = False,
                                flush_post = (flush opts = Some ''post''),
                                cb_registers = registers\<rparr>)\<rparr>
              in if immediate opts
                 then (case job n w s2 of None \<Rightarrow> None | Some s3 \<Rightarrow> Some (Watching w s3))
                 else (case effectFn n w s2 of
                         None \<Rightarrow> None
                       | Some (v, s3) \<Rightarrow>
                           Some (Watching w
                             (s3\<lparr>watchers := (watchers s3)
                                   (w := (watchers s3 w)\<lparr>w_oldValue := v\<rparr>)\<rparr>)))))"

text \<open>
  The microtask of \<open>flushJob\<close>: \<open>jobQueue.forEach(job => job())\<close>, which also visits
  the jobs added while it runs; then the \<open>finally\<close> handler is queued, which clears the
  flag. \<open>drain\<close> runs the microtasks until none is left.
\<close>

fun flush_jobs :: "nat \<Rightarrow> nat \<Rightarrow> state \<Rightarrow> state option" where
  "flush_jobs 0 i s = None"
| "flush_jobs (Suc n) i s =
     (if i < length (jobQueue s) then
        (case effectFn n (jobQueue s ! i) s of
           None \<Rightarrow> None
         | Some (v, s1) \<Rightarrow> flush_jobs n (Suc i) s1)
      else Some s)"

definition run_microtask :: "nat \<Rightarrow> mtask \<Rightarrow> state \<Rightarrow> state option" where
  "run_microtask n t s =
     (case t of
        FlushJobs \<Rightarrow>
          (case flush_jobs n 0 s of
             None \<Rightarrow> None
           | Some s1 \<Rightarrow> Some (s1\<lparr>microtasks := microtasks s1 @ [FlushDone]\<rparr>))
      | FlushDone \<Rightarrow> Some (s\<lparr>isFlushing := False\<rparr>)
      | WatchJob w \<Rightarrow> job n w s)"

fun drain :: "nat \<Rightarrow> state \<Rightarrow> state option" where
  "drain 0 s = None"
| "drain (Suc n) s =
     (case microtasks s of
        [] \<Rightarrow> Some s
      | t # ts \<Rightarrow>
          (case run_microtask n t (s\<lparr>microtasks := ts\<rparr>) of
             None \<Rightarrow> None
           | Some s1 \<Rightarrow> drain n s1))"

text \<open>The state at the start of a script, with the given objects.\<close>

definition init :: "(nat \<Rightarrow> (key \<times> val) list) \<Rightarrow> state" where
  "init h =
     \<lparr>bucket = (\<lambda>t. None), deps = (\<lambda>e. []), activeEffect = None, effectStack = [],
      objs = h,
      effs = (\<lambda>e. \<lparr>fn = Lit VUndef, lazy = True, scheduler = NoScheduler\<rparr>), nEffects = 0,
      cells = (\<lambda>c. \<lparr>cvalue = VUndef, dirty = True\<rparr>),
      watchers = (\<lambda>w. \<lparr>w_newValue = VUndef, w_oldValue = VUndef, wcleanup = False,
                        flush_post = False, cb_registers = False\<rparr>),
      jobQueue = [], isFlushing = False, microtasks = [], log = []\<rparr>"

section \<open>Properties of the interception layer with modes\<close>

text \<open>
  A state with the given heap and nothing else: no subscription, no proxy, no warning,
  nothing frozen.
\<close>

definition rstate0 :: "(nat \<Rightarrow> jsobj option) \<Rightarrow> nat \<Rightarrow> rstate" where
  "rstate0 h n =
     \<lparr>bucket = (\<lambda>t. None), deps = (\<lambda>e. []), activeEffect = None, effectStack = [],
      heap = h, frozen = (\<lambda>ob. False), nextId = n, reactiveMap = [], shouldTrack = True,
      warnings = []\<rparr>"

text \<open>Any number of later calls of \<open>getProxyObj\<close>, on any objects and with any flags.\<close>

fun wrap_all :: "(nat \<times> bool \<times> bool) list \<Rightarrow> rstate \<Rightarrow> rstate" where
  "wrap_all [] s = s"
| "wrap_all ((ob, sh, ro) # cs) s = wrap_all cs (snd (getProxyObj ob sh ro s))"

lemma getProxyObj_keeps:
  assumes "map_of (reactiveMap s) ob = Some h" and "h < nextId s" and "heap s h = Some P"
  shows "map_of (reactiveMap (snd (getProxyObj ob' sh ro s))) ob = Some h \<and>
         h < nextId (snd (getProxyObj ob' sh ro s)) \<and>
         heap (snd (getProxyObj ob' sh ro s)) h = Some P"
  using assms by (auto simp: getProxyObj_def Let_def update_conv' split: option.splits)

lemma wrap_all_keeps:
  "map_of (reactiveMap s) ob = Some h \<Longrightarrow> h < nextId s \<Longrightarrow> heap s h = Some P \<Longrightarrow>
   map_of (reactiveMap (wrap_all later s)) ob = Some h \<and> h < nextId (wrap_all later s) \<and>
   heap (wrap_all later s) h = Some P"
proof (induction later arbitrary: s)
  case Nil
  then show ?case by simp
next
  case (Cons c cs)
  obtain ob' sh ro where c: "c = (ob', sh, ro)" by (cases c) auto
  from getProxyObj_keeps [OF Cons.prems, of ob' sh ro]
  show ?case unfolding c by (simp add: Cons.IH)
qed

lemma getProxyObj_hit:
  "map_of (reactiveMap s) ob = Some h \<Longrightarrow> getProxyObj ob sh ro s = (h, s)"
  by (simp add: getProxyObj_def)

text \<open>
  Claim C10. The cache of proxies is keyed by the object alone. When \<open>ob\<close> has no proxy
  yet, the first call \<open>getProxyObj(ob, sh1, ro1)\<close> makes a proxy with the flags
  \<open>sh1\<close>, \<open>ro1\<close> and stores it under \<open>ob\<close>; after any later calls of \<open>getProxyObj\<close>,
  a call \<open>getProxyObj(ob, sh2, ro2)\<close> returns that first proxy and changes nothing, and
  the proxy still has the flags of the first call: the flags of the later call are ignored.
\<close>

theorem getProxyObj_cache_keyed_by_object:
  assumes "map_of (reactiveMap s) ob = None"
  shows "heap (snd (getProxyObj ob sh1 ro1 s)) (fst (getProxyObj ob sh1 ro1 s)) =
           Some (Prx ob sh1 ro1) \<and>
         map_of (reactiveMap (snd (getProxyObj ob sh1 ro1 s))) ob =
           Some (fst (getProxyObj ob sh1 ro1 s)) \<and>
         getProxyObj ob sh2 ro2 (wrap_all later (snd (getProxyObj ob sh1 ro1 s))) =
           (fst (getProxyObj ob sh1 ro1 s), wrap_all later (snd (getProxyObj ob sh1 ro1 s))) \<and>
         heap (wrap_all later (snd (getProxyObj ob sh1 ro1 s))) (fst (getProxyObj ob sh1 ro1 s)) =
           Some (Prx ob sh1 ro1)"
proof -
  let ?h = "fst (getProxyObj ob sh1 ro1 s)" and ?s' = "snd (getProxyObj ob sh1 ro1 s)"
  have first: "map_of (reactiveMap ?s') ob = Some ?h" "?h < nextId ?s'"
    "heap ?s' ?h = Some (Prx ob sh1 ro1)"
    using assms by (simp_all add: getProxyObj_def Let_def update_conv')
  from wrap_all_keeps [OF first, of later]
  have later: "map_of (reactiveMap (wrap_all later ?s')) ob = Some ?h"
    "heap (wrap_all later ?s') ?h = Some (Prx ob sh1 ro1)" by simp_all
  show ?thesis using first later getProxyObj_hit [OF later(1)] by simp
qed

text \<open>
  The example of the claim: object 0 is wrapped mutable first; a read-only wrapper of it,
  asked for after two other calls, is the mutable proxy 2.
\<close>

theorem getProxyObj_cache_keyed_by_object_witness:
  "getProxyObj 0 False True
     (wrap_all [(1, True, True), (0, True, True)]
        (snd (getProxyObj 0 False False (rstate0 [0 \<mapsto> Rec [], 1 \<mapsto> Rec []] 2)))) =
   (2, wrap_all [(1, True, True), (0, True, True)]
        (snd (getProxyObj 0 False False (rstate0 [0 \<mapsto> Rec [], 1 \<mapsto> Rec []] 2)))) \<and>
   heap (wrap_all [(1, True, True), (0, True, True)]
        (snd (getProxyObj 0 False False (rstate0 [0 \<mapsto> Rec [], 1 \<mapsto> Rec []] 2)))) 2 =
     Some (Prx 0 False False)"
  using getProxyObj_cache_keyed_by_object
    [of "rstate0 [0 \<mapsto> Rec [], 1 \<mapsto> Rec []] 2" 0 False False True True
        "[(1, True, True), (0, True, True)]"]
  by (simp add: rstate0_def getProxyObj_def)

text \<open>
  Claim C7 says that a write or a deletion on a read-only proxy warns, changes nothing,
  returns true and never raises. With a string key that is what the two traps do:
\<close>

lemma readonly_write_string_key:
  "\<not> is_symbol k \<Longrightarrow>
   set3 target True k v receiver s =
     Inr \<lparr>returned = True, triggered = None, after = s\<lparr>warnings := warnings s @ [k]\<rparr>\<rparr> \<and>
   deleteProperty3 target True k s =
     Inr \<lparr>returned = True, triggered = None, after = s\<lparr>warnings := warnings s @ [k]\<rparr>\<rparr>"
  by (simp add: set3_def deleteProperty3_def warn_readonly_def)

text \<open>
  Claim C7, at a symbol key: on a read-only proxy the \<open>set\<close> trap and the
  \<open>deleteProperty\<close> trap raise a type error, whatever the target, the value, the
  receiver and the state are. The message of the warning is built from the key before
  anything is returned, and a symbol has no conversion to a string. So the claim's
  "never throws" and "reports success" fail for symbol keys.
\<close>

theorem readonly_write_symbol_key_raises:
  "set3 target True (Symb n) v receiver s = Inl TypeError \<and>
   deleteProperty3 target True (Symb n) s = Inl TypeError"
  by (simp add: set3_def deleteProperty3_def warn_readonly_def is_symbol_def)

theorem readonly_write_symbol_key_raises_witness:
  "set3 0 True (Symb 1) (VNum 1) 1 (rstate0 [0 \<mapsto> Rec [], 1 \<mapsto> Prx 0 False True] 2) \<noteq>
     Inr \<lparr>returned = True, triggered = None,
          after = (rstate0 [0 \<mapsto> Rec [], 1 \<mapsto> Prx 0 False True] 2)\<lparr>warnings := [Symb 1]\<rparr>\<rparr>"
  using readonly_write_symbol_key_raises
    [of 0 1 "VNum 1" 1 "rstate0 [0 \<mapsto> Rec [], 1 \<mapsto> Prx 0 False True] 2"]
  by simp

subsection \<open>The set trap\<close>

text \<open>
  An array of one object (object 0) with its mutable deep proxy (object 2), used as a
  concrete input below.
\<close>

definition arr_state :: rstate where
  "arr_state = (rstate0 [0 \<mapsto> Rec [], 1 \<mapsto> Arr [VObj 0] [], 2 \<mapsto> Prx 1 False False] 3)
     \<lparr>reactiveMap := [(1, 2)]\<rparr>"

text \<open>
  \<open>receiver.raw\<close> of a proxy is its target, also after the write of \<open>Reflect.set\<close>; and
  \<open>receiver.raw\<close> of an object that inherits from a proxy and has no property \<open>raw\<close> of
  its own is the target of that proxy.
\<close>

lemma raw_chain_numeral:
  "raw_chain (numeral v) h receiver =
     (case h receiver of
        Some (Prx t sh ro) \<Rightarrow> VObj t
      | Some (Heir ps p) \<Rightarrow>
          if Named ''raw'' \<in> fst ` set ps then lookup ps (Named ''raw'')
          else raw_chain (pred_numeral v) h p
      | ob \<Rightarrow> prop_get ob (Named ''raw''))"
  by (simp add: numeral_eq_Suc)

lemma raw_of_handle: "heap s receiver = Some (Prx t' sh ro) \<Longrightarrow> raw_of s receiver = VObj t'"
  by (simp add: raw_of_def)

lemma raw_of_heir:
  assumes "heap s receiver = Some (Heir ps p)" and "Named ''raw'' \<notin> fst ` set ps"
      and "heap s p = Some (Prx t sh ro)" and "0 < nextId s"
  shows "raw_of s receiver = VObj t"
proof -
  obtain n where n: "nextId s = Suc n" using assms(4) by (cases "nextId s") auto
  show ?thesis using assms(1-3) by (simp add: raw_of_def n)
qed



text \<open>
  A symbol key on an array: the receiver is the proxy of the target and the new value
  differs from the old one, but the trap raises in \<open>Number(key)\<close>, before the write and
  before \<open>trigger\<close>. A symbol has no conversion to a number, as it has none to a string
  in the read-only branch.
\<close>

lemma set_symbol_key_on_array_raises:
  "set3 1 False (Symb 1) (VNum 5) 2 arr_state = Inl TypeError \<and>
   raw_of arr_state 2 = VObj 1 \<and>
   prop_get (heap arr_state 1) (Symb 1) \<noteq> VNum 5"
  by (simp add: set3_def set_type_def isArray_def arr_state_def rstate0_def raw_of_def
      raw_chain_numeral lookup_def)

text \<open>
  A write the array itself refuses raises as well, in \<open>Reflect.set\<close>: a length that is
  not a valid array length.
\<close>

lemma set_invalid_length_raises:
  "set3 1 False (Named ''length'') (VNum (- 1)) 2 arr_state = Inl RangeError"
  by (simp add: set3_def set_type_def isArray_def arr_state_def rstate0_def raw_of_def
      lookup_def reflect_set_def written_object_def)

text \<open>
  A write through a plain object that inherits from the proxy of \<open>target\<close>, as in
  \<open>child = Object.create(p); child.k = v\<close>: the object has no property \<open>k\<close> of its own
  before, so the write reaches the \<open>set\<close> trap of \<open>p\<close> with the object as receiver. The
  property is written on the object, the target keeps its value, and \<open>trigger\<close> is called
  for the target when the value differs from the one the target has.
\<close>

lemma set_through_heir_triggers:
  assumes "heap s receiver = Some (Heir ps p)" and "heap s p = Some (Prx target sh ro)"
      and "Named ''raw'' \<notin> fst ` set ps" and "k \<noteq> Named ''raw''"
      and "\<not> frozen s receiver" and "\<not> frozen s target" and "0 < nextId s"
      and "set_type s target k = Inr type"
      and "prop_get (heap s target) k \<noteq> newValue"
  shows "set3 target False k newValue receiver s =
           Inr \<lparr>returned = True, triggered = Some (target, k, type, newValue),
                after = s\<lparr>heap := (heap s)(receiver \<mapsto> Heir (AList.update k newValue ps) p)\<rparr>\<rparr>"
proof -
  have ne: "p \<noteq> receiver" using assms(1,2) by auto
  let ?s1 = "s\<lparr>heap := (heap s)(receiver \<mapsto> Heir (AList.update k newValue ps) p)\<rparr>"
  have rs: "reflect_set target k newValue receiver s = Inr (True, ?s1)"
    using assms(1,5,6) by (simp add: reflect_set_def written_object_def)
  have "Named ''raw'' \<notin> fst ` set (AList.update k newValue ps)"
    using assms(3,4) by (simp add: AList.dom_update)
  then have "raw_of ?s1 receiver = VObj target"
    using raw_of_heir [of ?s1 receiver "AList.update k newValue ps" p target sh ro] assms(2,7) ne
    by simp
  then show ?thesis
    using rs assms(8,9) by (auto simp: set3_def strict_eq_def)
qed

text \<open>
  A write on a frozen target through its own proxy: \<open>Reflect.set\<close> writes nothing and
  returns false, the trap returns false, and \<open>trigger\<close> is called all the same when the
  value differs from the one the target has.
\<close>

lemma set_on_frozen_target_triggers:
  assumes "heap s receiver = Some (Prx target sh ro)" and "frozen s target"
      and "set_type s target k = Inr type"
      and "prop_get (heap s target) k \<noteq> newValue"
  shows "set3 target False k newValue receiver s =
           Inr \<lparr>returned = False, triggered = Some (target, k, type, newValue), after = s\<rparr>"
  using assms
  by (auto simp: set3_def reflect_set_def written_object_def raw_of_handle strict_eq_def)





subsection \<open>The instrumented search methods\<close>

lemma indexOf_loop_not_false: "fst (indexOf_loop t sh ro x k n s) \<noteq> VBool False"
  by (induction n arbitrary: k s) (auto simp: Let_def split: prod.splits)

lemma lastIndexOf_loop_not_false: "fst (lastIndexOf_loop t sh ro x n s) \<noteq> VBool False"
  by (induction n arbitrary: s) (auto simp: Let_def split: prod.splits)

text \<open>
  The result of \<open>indexOf\<close> and of \<open>lastIndexOf\<close> is a number, never \<open>false\<close>: for these
  two methods the instrumented function is the search on the proxy alone, and the raw
  array is never searched.
\<close>

lemma index_search_never_reads_raw:
  assumes "heap s this = Some (Prx t sh ro)" and "m \<noteq> Includes"
  shows "arrayInstrumentations m this x s = origin_on_proxy m t sh ro x s"
proof -
  have "fst (origin_on_proxy m t sh ro x s) \<noteq> VBool False"
    using assms(2) indexOf_loop_not_false lastIndexOf_loop_not_false
    by (cases m) (auto simp: origin_on_proxy_def Let_def split: prod.splits)
  then show ?thesis
    using assms(1)
    by (auto simp: arrayInstrumentations_def strict_eq_def Let_def split: prod.splits)
qed

text \<open>
  Claim C8, at the array \<open>[o]\<close> of one raw object \<open>o\<close> read through its deep proxy: the
  proxy shows the element wrapped, so the search on the proxy misses \<open>o\<close>.
  \<open>includes\<close> then searches the raw array and answers true. \<open>indexOf\<close> and
  \<open>lastIndexOf\<close> answer -1, although the raw array holds \<open>o\<close> at index 0: a miss is
  -1 for them, which is not \<open>=== false\<close>, so the raw array is not searched.
\<close>

theorem indexOf_misses_stored_raw_object:
  "fst (arrayInstrumentations IndexOf 2 (VObj 0) arr_state) = VNum (- 1) \<and>
   origin_on_raw IndexOf (heap arr_state 1) (VObj 0) = VNum 0 \<and>
   fst (arrayInstrumentations LastIndexOf 2 (VObj 0) arr_state) = VNum (- 1) \<and>
   origin_on_raw LastIndexOf (heap arr_state 1) (VObj 0) = VNum 0 \<and>
   fst (arrayInstrumentations Includes 2 (VObj 0) arr_state) = VBool True"
  by (simp add: arr_state_def rstate0_def arrayInstrumentations_def origin_on_proxy_def
      origin_on_raw_def get3_def has3_def track3_def isArray_def to_length_def getProxyObj_def
      raw_of_def strict_eq_def same_value_zero_def instrumented_def is_symbol_def Let_def)

theorem indexOf_misses_stored_raw_object_witness:
  "fst (arrayInstrumentations IndexOf 2 (VObj 0) arr_state) \<noteq>
     origin_on_raw IndexOf (heap arr_state 1) (VObj 0)"
  using indexOf_misses_stored_raw_object by simp

subsection \<open>Writes of the length of an array\<close>

text \<open>
  The run of an effect \<open>e\<close> whose body reads index \<open>i\<close> of the array \<open>t\<close> through the
  mutable proxy of \<open>t\<close>.
\<close>

definition read_index_effect :: "nat \<Rightarrow> bool \<Rightarrow> nat \<Rightarrow> nat \<Rightarrow> rstate \<Rightarrow> rstate" where
  "read_index_effect t sh i e s = effectFn3 e (\<lambda>u. snd (get3 t sh False (Idx i) u)) s"

lemma bucket_delete_keeps_empty:
  "b t = None \<Longrightarrow> fold (bucket_delete e) ds b t = None"
proof (induction ds arbitrary: b)
  case Nil
  then show ?case by simp
next
  case (Cons d ds)
  have "bucket_delete e d b t = None"
    using Cons.prems by (auto simp: bucket_delete_def split: option.splits)
  then show ?case by (simp add: Cons.IH)
qed

lemma cleanup_frame:
  "heap (cleanup e s) = heap s" "nextId (cleanup e s) = nextId s"
  "reactiveMap (cleanup e s) = reactiveMap s" "shouldTrack (cleanup e s) = shouldTrack s"
  "effectStack (cleanup e s) = effectStack s" "activeEffect (cleanup e s) = activeEffect s"
  "frozen (cleanup e s) = frozen s"
  "bucket s t = None \<Longrightarrow> bucket (cleanup e s) t = None"
  by (simp_all add: cleanup_def bucket_delete_keeps_empty)

lemma read_index_effect_state:
  assumes "heap s t = Some (Arr es xs)" and "heap s h = Some (Prx t sh False)"
      and "bucket s t = None" and "effectStack s = []" and "shouldTrack s"
      and "t < nextId s" and "h < nextId s"
  shows "bucket (read_index_effect t sh i e s) t = Some [(Idx i, [e])] \<and>
         heap (read_index_effect t sh i e s) t = Some (Arr es xs) \<and>
         heap (read_index_effect t sh i e s) h = Some (Prx t sh False) \<and>
         activeEffect (read_index_effect t sh i e s) = None"
  using assms
  by (auto simp: read_index_effect_def effectFn3_def Let_def get3_def track3_def track_def
      isArray_def cleanup_frame bucket_add_def depsMap_of_def subs_def set_add_def
      getProxyObj_def is_symbol_def split: val.splits option.splits prod.splits)

lemma trigger3_single_index:
  assumes "bucket s t = Some [(Idx i, [e])]" and "heap s t = Some (Arr es xs)"
      and "activeEffect s = None"
  shows "trigger3 t (Named ''length'') ty (VNum n) s = Inr (if n \<le> int i then [e] else [])"
  using assms
  by (simp add: trigger3_def effectsToRun_def isArray_def key_ge_def add_unless_active_def
      set_add_def add_key_effects_def ITERATE_KEY_def Let_def)

text \<open>
  The walk over \<open>depsMap\<close> in general: when no key of the map is a symbol, the walk
  returns, and it has added every effect other than the active one that is stored for an
  index at or beyond the new length, and nothing else.
\<close>

lemma add_unless_active_set:
  "set (add_unless_active a es acc) = set acc \<union> {e \<in> set es. Some e \<noteq> a}"
  unfolding add_unless_active_def
  by (induction es arbitrary: acc) (auto simp: set_add_def)

lemma length_fanout_set:
  assumes "\<forall>k \<in> fst ` set m. \<not> is_symbol k"
  shows "\<exists>run. length_fanout m (VNum n) a acc = Inr run \<and>
           set run = set acc \<union>
             {e. Some e \<noteq> a \<and> (\<exists>i es. (Idx i, es) \<in> set m \<and> n \<le> int i \<and> e \<in> set es)}"
  using assms
proof (induction m arbitrary: acc)
  case Nil
  then show ?case by simp
next
  case (Cons p m)
  obtain k es where p: "p = (k, es)" by (cases p)
  have ns: "\<not> is_symbol k" using Cons.prems p by simp
  have rest: "\<forall>k \<in> fst ` set m. \<not> is_symbol k" using Cons.prems by simp
  show ?case
  proof (cases k)
    case (Idx i)
    from Cons.IH [OF rest, of "if n \<le> int i then add_unless_active a es acc else acc"]
    show ?thesis using p Idx by (auto simp: key_ge_def add_unless_active_set; blast)
  next
    case (Named x)
    from Cons.IH [OF rest, of acc]
    show ?thesis using p Named by (auto simp: key_ge_def)
  next
    case (Symb j)
    then show ?thesis using ns by (simp add: is_symbol_def)
  qed
qed

lemma add_key_effects_keeps: "e \<in> set acc \<Longrightarrow> e \<in> set (add_key_effects m k a acc)"
  by (auto simp: add_key_effects_def add_unless_active_set split: option.splits)

text \<open>
  So a write of the length of an array, in any state in which no symbol key is subscribed
  on the array, has in \<open>effectsToRun\<close> every subscriber of an index at or beyond the new
  length that is not the active effect.
\<close>

lemma trigger3_length_includes:
  assumes "heap s t = Some (Arr xs ps)"
      and "\<forall>k \<in> fst ` set (depsMap_of (bucket s) t). \<not> is_symbol k"
      and "e \<in> set (subs (bucket s) t (Idx i))" and "n \<le> int i" and "Some e \<noteq> activeEffect s"
  shows "\<exists>run. trigger3 t (Named ''length'') ty (VNum n) s = Inr run \<and> e \<in> set run"
proof -
  obtain m where m: "bucket s t = Some m"
    using assms(3) by (cases "bucket s t") (auto simp: subs_def depsMap_of_def)
  then have dm: "depsMap_of (bucket s) t = m" by (simp add: depsMap_of_def)
  obtain es where es: "map_of m (Idx i) = Some es" "e \<in> set es"
    using assms(3) unfolding subs_def dm by (cases "map_of m (Idx i)") auto
  then have mem: "(Idx i, es) \<in> set m" by (simp add: map_of_SomeD)
  let ?run0 = "effectsToRun (map_of m (Named ''length'')) (activeEffect s)"
  from length_fanout_set [of m n "activeEffect s" ?run0] assms(2) dm obtain run1 where
    r1: "length_fanout m (VNum n) (activeEffect s) ?run0 = Inr run1"
      "set run1 = set ?run0 \<union> {e. Some e \<noteq> activeEffect s \<and>
          (\<exists>i es. (Idx i, es) \<in> set m \<and> n \<le> int i \<and> e \<in> set es)}"
    by auto
  have in1: "e \<in> set run1" using r1(2) mem es(2) assms(4,5) by auto
  show ?thesis
    using m assms(1) r1(1) in1
    by (simp add: trigger3_def isArray_def Let_def add_key_effects_keeps)
qed

text \<open>
  The \<open>has\<close> trap tracks every key, symbols as well. With a symbol key in the map of an
  array, the comparison \<open>key >= newValue\<close> of the walk raises.
\<close>

lemma length_fanout_symbol_raises:
  assumes "(k, es) \<in> set m" and "is_symbol k"
  shows "\<exists>err. length_fanout m v a acc = Inl err"
  using assms
proof (induction m arbitrary: acc)
  case Nil
  then show ?case by simp
next
  case (Cons p m)
  obtain k' es' where p: "p = (k', es')" by (cases p)
  show ?case
  proof (cases "key_ge k' v")
    case (Inl err)
    then show ?thesis using p by simp
  next
    case (Inr b)
    have "k' \<noteq> k" using Inr assms(2) by (cases k) (auto simp: key_ge_def is_symbol_def)
    then have "(k, es) \<in> set m" using Cons.prems(1) p by simp
    from Cons.IH [OF this assms(2)] show ?thesis using p Inr by simp
  qed
qed

text \<open>
  The scenario of claim C5 when the effect does nothing but read the index. Let \<open>t\<close> be
  an array of length \<open>L\<close> with a mutable proxy \<open>h\<close>, nothing subscribed to it yet, and
  let the effect \<open>e\<close> run and read index \<open>i < L\<close> through the proxy. A write of
  \<open>length = i\<close> through the proxy then calls \<open>trigger\<close>, and the effects \<open>trigger\<close> runs
  are exactly \<open>e\<close>. A write of \<open>length = L + 1\<close> calls \<open>trigger\<close> as well, and
  \<open>trigger\<close> runs no effect.
\<close>

lemma length_write_after_index_read_alone:
  assumes "heap s t = Some (Arr es xs)" and "heap s h = Some (Prx t sh False)"
      and "bucket s t = None" and "effectStack s = []" and "shouldTrack s"
      and "t < nextId s" and "h < nextId s"
      and "i < length es" and "int (length es) + 1 < 4294967296"
  shows "(\<exists>r. set3 t False (Named ''length'') (VNum (int i)) h (read_index_effect t sh i e s) = Inr r \<and>
            triggered r = Some (t, Named ''length'', ADD, VNum (int i)) \<and>
            trigger3 t (Named ''length'') ADD (VNum (int i)) (after r) = Inr [e]) \<and>
         (\<exists>r. set3 t False (Named ''length'') (VNum (int (length es) + 1)) h
                 (read_index_effect t sh i e s) = Inr r \<and>
            triggered r = Some (t, Named ''length'', ADD, VNum (int (length es) + 1)) \<and>
            trigger3 t (Named ''length'') ADD (VNum (int (length es) + 1)) (after r) = Inr [])"
proof -
  let ?s1 = "read_index_effect t sh i e s"
  note st = read_index_effect_state [OF assms(1-7), of i e]
  have hne: "h \<noteq> t" using assms(1,2) by auto
  have shrink: "\<exists>r. set3 t False (Named ''length'') (VNum (int i)) h ?s1 = Inr r \<and>
            triggered r = Some (t, Named ''length'', ADD, VNum (int i)) \<and>
            trigger3 t (Named ''length'') ADD (VNum (int i)) (after r) = Inr [e]"
    using st assms(8,9) hne
    by (simp add: set3_def set_type_def isArray_def reflect_set_def written_object_def
        raw_of_def strict_eq_def Let_def trigger3_single_index)
  have grow: "\<exists>r. set3 t False (Named ''length'') (VNum (int (length es) + 1)) h ?s1 = Inr r \<and>
            triggered r = Some (t, Named ''length'', ADD, VNum (int (length es) + 1)) \<and>
            trigger3 t (Named ''length'') ADD (VNum (int (length es) + 1)) (after r) = Inr []"
    using st assms(8,9) hne
    by (simp add: set3_def set_type_def isArray_def reflect_set_def written_object_def
        raw_of_def strict_eq_def Let_def trigger3_single_index)
  show ?thesis using shrink grow by blast
qed

text \<open>
  The run of an effect \<open>e\<close> whose body is \<open>sym in arr; arr[i]\<close>: it asks the proxy of the
  array \<open>t\<close> whether it has the symbol key \<open>sym\<close> (number \<open>q\<close>), then reads index \<open>i\<close>.
\<close>

definition has_symbol_then_read_index :: "nat \<Rightarrow> bool \<Rightarrow> nat \<Rightarrow> nat \<Rightarrow> nat \<Rightarrow> rstate \<Rightarrow> rstate" where
  "has_symbol_then_read_index t sh q i e s =
     effectFn3 e (\<lambda>u. snd (get3 t sh False (Idx i) (snd (has3 t (Symb q) u)))) s"

lemma has_symbol_then_read_index_state:
  assumes "heap s t = Some (Arr es xs)" and "heap s h = Some (Prx t sh False)"
      and "bucket s t = None" and "effectStack s = []" and "shouldTrack s"
      and "t < nextId s" and "h < nextId s"
  shows "bucket (has_symbol_then_read_index t sh q i e s) t =
           Some [(Symb q, [e]), (Idx i, [e])] \<and>
         heap (has_symbol_then_read_index t sh q i e s) t = Some (Arr es xs) \<and>
         heap (has_symbol_then_read_index t sh q i e s) h = Some (Prx t sh False) \<and>
         frozen (has_symbol_then_read_index t sh q i e s) = frozen s \<and>
         activeEffect (has_symbol_then_read_index t sh q i e s) = None"
  using assms
  by (auto simp: has_symbol_then_read_index_def effectFn3_def Let_def get3_def has3_def
      track3_def track_def isArray_def cleanup_frame bucket_add_def depsMap_of_def subs_def
      set_add_def getProxyObj_def is_symbol_def split: val.splits option.splits prod.splits)

text \<open>
  Claim C5 says that after an effect has read index \<open>i < L\<close> of an array, a write of
  \<open>length = i\<close> retriggers it. Here the effect has also asked \<open>sym in arr\<close> for a symbol.
  The \<open>get\<close> trap leaves symbol keys untracked, as its comment says; the \<open>has\<close> trap
  tracks them like any other key. After its run the effect is subscribed to index \<open>i\<close>.
  The write of \<open>length = i\<close> through the proxy cuts the array and calls \<open>trigger\<close>, and
  \<open>trigger\<close> raises a type error in the comparison \<open>key >= newValue\<close> of its walk over
  the keys, before it runs any effect: the effect is not retriggered.
\<close>

theorem length_write_raises_with_symbol_subscriber:
  assumes "heap s t = Some (Arr es xs)" and "heap s h = Some (Prx t sh False)"
      and "bucket s t = None" and "effectStack s = []" and "shouldTrack s"
      and "t < nextId s" and "h < nextId s" and "\<not> frozen s t"
      and "i < length es" and "int (length es) < 4294967296"
  shows "e \<in> set (subs (bucket (has_symbol_then_read_index t sh q i e s)) t (Idx i)) \<and>
         (\<exists>r. set3 t False (Named ''length'') (VNum (int i)) h
                 (has_symbol_then_read_index t sh q i e s) = Inr r \<and>
            returned r \<and>
            triggered r = Some (t, Named ''length'', ADD, VNum (int i)) \<and>
            heap (after r) t = Some (Arr (take i es) xs) \<and>
            trigger3 t (Named ''length'') ADD (VNum (int i)) (after r) = Inl TypeError)"
proof -
  let ?s1 = "has_symbol_then_read_index t sh q i e s"
  note st = has_symbol_then_read_index_state [OF assms(1-7), of q i e]
  have hne: "h \<noteq> t" using assms(1,2) by auto
  have sub: "e \<in> set (subs (bucket ?s1) t (Idx i))"
    using st by (simp add: subs_def depsMap_of_def)
  let ?s2 = "?s1\<lparr>heap := (heap ?s1)(t \<mapsto> Arr (take i es) xs)\<rparr>"
  have wr: "set3 t False (Named ''length'') (VNum (int i)) h ?s1 =
      Inr \<lparr>returned = True, triggered = Some (t, Named ''length'', ADD, VNum (int i)),
           after = ?s2\<rparr>"
    using st assms(8,9,10) hne
    by (simp add: set3_def set_type_def isArray_def reflect_set_def written_object_def
        raw_of_def strict_eq_def Let_def)
  have "trigger3 t (Named ''length'') ADD (VNum (int i)) ?s2 = Inl TypeError"
    using st by (simp add: trigger3_def isArray_def key_ge_def Let_def)
  then show ?thesis using sub wr by simp
qed

text \<open>
  The array \<open>[10, 20, 30]\<close> and the effect \<open>() => { sym in arr; arr[1] }\<close>; the length is
  set to 1.
\<close>

theorem length_write_raises_with_symbol_subscriber_witness:
  "0 \<in> set (subs (bucket (has_symbol_then_read_index 1 False 7 1 0
             (rstate0 [1 \<mapsto> Arr [VNum 10, VNum 20, VNum 30] [], 2 \<mapsto> Prx 1 False False] 3)))
           1 (Idx 1)) \<and>
   (case set3 1 False (Named ''length'') (VNum 1) 2
          (has_symbol_then_read_index 1 False 7 1 0
             (rstate0 [1 \<mapsto> Arr [VNum 10, VNum 20, VNum 30] [], 2 \<mapsto> Prx 1 False False] 3)) of
      Inl err \<Rightarrow> False
    | Inr r \<Rightarrow> triggered r = Some (1, Named ''length'', ADD, VNum 1) \<and>
               heap (after r) 1 = Some (Arr [VNum 10] []) \<and>
               trigger3 1 (Named ''length'') ADD (VNum 1) (after r) = Inl TypeError)"
  using length_write_raises_with_symbol_subscriber
    [of "rstate0 [1 \<mapsto> Arr [VNum 10, VNum 20, VNum 30] [], 2 \<mapsto> Prx 1 False False] 3"
        1 "[VNum 10, VNum 20, VNum 30]" "[]" 2 False 1 0 7]
  by (auto simp: rstate0_def)

section \<open>Properties of the reactive core\<close>

text \<open>
  Adding to a copy of the set the members of the set changes nothing: \<open>effectsToRun\<close>
  is the whole set of subscribers, the active effect included.
\<close>

lemma add_unless_active_subset:
  "set es \<subseteq> set acc \<Longrightarrow> add_unless_active a es acc = acc"
  unfolding add_unless_active_def
  by (induction es arbitrary: acc) (auto simp: set_add_def)

lemma effectsToRun_copy:
  "effectsToRun effects a = (case effects of None \<Rightarrow> [] | Some es \<Rightarrow> es)"
  by (cases effects) (simp_all add: effectsToRun_def add_unless_active_subset)

lemma trigger_runs_subscribers:
  "trigger (Suc n) t k s = run_effects n (subs (bucket s) t k) s"
  by (simp add: effectsToRun_copy subs_def depsMap_of_def split: option.splits)

declare trigger.simps(2) [simp del]
declare trigger_runs_subscribers [simp]

lemma subs_bucket_delete:
  "subs (bucket_delete e tk b) t k = (if tk = (t, k) then removeAll e (subs b t k) else subs b t k)"
  by (cases tk)
     (auto simp: subs_def depsMap_of_def bucket_delete_def map_of_map_entry set_delete_def
        split: option.splits)

lemma subs_fold_bucket_delete:
  "subs (fold (bucket_delete e) ds b) t k =
     (if (t, k) \<in> set ds then removeAll e (subs b t k) else subs b t k)"
  by (induction ds arbitrary: b) (auto simp: subs_bucket_delete)

lemma subs_bucket_add:
  "subs (bucket_add e t k b) t' k' =
     (if t' = t \<and> k' = k then set_add e (subs b t k) else subs b t' k')"
  by (auto simp: bucket_add_def subs_def depsMap_of_def update_conv' split: option.splits)

lemma self_trigger_loops:
  assumes "fn (effs s e) = Put ob k (Plus (Get ob k) (Lit (VNum 1)))"
      and "scheduler (effs s e) = NoScheduler"
      and "subs (bucket s) (Obj ob) k = [] \<or> subs (bucket s) (Obj ob) k = [e]"
  shows "effectFn n e s = None"
  using assms
proof (induction n arbitrary: s rule: less_induct)
  case (less n)
  show ?case
  proof (cases n)
    case 0
    then show ?thesis by simp
  next
    case (Suc m)
    have key: "trigger m (Obj ob) k s' = None"
      if "effs s' = effs s" and "subs (bucket s') (Obj ob) k = [e]" for s'
    proof (cases m)
      case 0
      then show ?thesis by simp
    next
      case (Suc j)
      have "effectFn j e s' = None"
        using less.IH [of j s'] less.prems(1,2) that Suc \<open>n = Suc m\<close> by simp
      then show ?thesis
        using less.prems(2) that unfolding Suc trigger_runs_subscribers by simp
    qed
    show ?thesis
      unfolding Suc using less.prems(1,3)
      by (auto simp: Let_def key track_def cleanup_def emit_def subs_bucket_add
          subs_fold_bucket_delete set_add_def)
  qed
qed

text \<open>
  Claim C1, at an effect that increments a tracked property (it reads and writes the same
  key of the same target). When the active effect \<open>e\<close> is the subscriber of the key,
  \<open>effectsToRun\<close> is \<open>[e]\<close>: the copy \<open>new Set(effects)\<close> already holds the active
  effect, and the guarded loop after it only adds. So \<open>trigger\<close> runs \<open>e\<close> from within
  \<open>e\<close>, and registering the effect returns for no amount of fuel: the effect retriggers
  itself without end, where the claim says that it runs once.
\<close>

theorem self_trigger_not_suppressed:
  "effectsToRun (Some [e]) (Some e) = [e] \<and>
   (\<forall>n. effect n (Put ob k (Plus (Get ob k) (Lit (VNum 1)))) False NoScheduler (init h) = None)"
proof -
  have "effectFn n 0 (snd (new_effect (Put ob k (Plus (Get ob k) (Lit (VNum 1)))) False NoScheduler (init h))) = None" for n
    by (rule self_trigger_loops) (simp_all add: new_effect_def init_def subs_def depsMap_of_def)
  then show ?thesis
    by (simp add: effectsToRun_copy effect_def new_effect_def init_def Let_def)
qed

theorem self_trigger_not_suppressed_witness:
  "effect 50 (Put 0 (Named ''i'') (Plus (Get 0 (Named ''i'')) (Lit (VNum 1)))) False NoScheduler
     (init (\<lambda>ob. [(Named ''i'', VNum 0)])) = None \<and>
   0 \<in> set (effectsToRun (Some [0]) (Some 0))"
  using self_trigger_not_suppressed [of 0 0 "Named ''i''" "\<lambda>ob. [(Named ''i'', VNum 0)]"]
  by simp


subsection \<open>Computed cells\<close>


text \<open>How many times the body of effect \<open>e\<close> has started to run.\<close>

definition runs :: "nat \<Rightarrow> state \<Rightarrow> nat" where
  "runs e s = count_list (log s) (Run e)"













subsection \<open>Watchers\<close>

fun is_callback :: "event \<Rightarrow> bool" where
  "is_callback (Callback w new old) = True"
| "is_callback _ = False"

definition callbacks :: "state \<Rightarrow> event list" where
  "callbacks s = filter is_callback (log s)"

lemma emit_simps:
  "log (emit ev s) = log s @ [ev]" "bucket (emit ev s) = bucket s" "deps (emit ev s) = deps s"
  "activeEffect (emit ev s) = activeEffect s" "effectStack (emit ev s) = effectStack s"
  "objs (emit ev s) = objs s" "effs (emit ev s) = effs s" "cells (emit ev s) = cells s"
  "watchers (emit ev s) = watchers s"
  by (simp_all add: emit_def)

text \<open>
  With an options object that does not set \<open>immediate\<close>, as in
  \<open>watch(() => a.x, cb, {})\<close>, over any objects \<open>h\<close>: the setup runs the getter once,
  calls the callback not at all and stores the value of \<open>a.x\<close> as the old value. A write
  \<open>a.x = v\<close> after it calls the callback once, with the new value \<open>v\<close> and the old
  value, at once when \<open>flush\<close> is not \<open>post\<close> and in the next microtask when it is, and
  then the stored old value is \<open>v\<close>.
\<close>

lemma watch_with_options_reports_new_and_old:
  "\<exists>s1 s2 s3.
     watch (Suc n) (Get a (Named ''x'')) reg (Some \<lparr>immediate = False, flush = fl\<rparr>) (init h) =
       Some (Watching 0 s1) \<and>
     callbacks s1 = [] \<and> count_list (log s1) (Run 0) = 1 \<and>
     w_oldValue (watchers s1 0) = lookup (h a) (Named ''x'') \<and>
     eval (Suc (Suc n)) None (Put a (Named ''x'') (Lit v)) s1 = Some (v, s2) \<and>
     (fl \<noteq> Some ''post'' \<longrightarrow> callbacks s2 = [Callback 0 v (lookup (h a) (Named ''x''))]) \<and>
     drain (Suc (Suc (Suc n))) s2 = Some s3 \<and>
     callbacks s3 = [Callback 0 v (lookup (h a) (Named ''x''))] \<and>
     w_oldValue (watchers s3 0) = v"
  by (cases "fl = Some ''post''")
     (simp_all add: watch_def new_effect_def init_def Let_def cleanup_def track_def emit_def
      callbacks_def bucket_add_def subs_def depsMap_of_def set_add_def run_microtask_def
      effectsToRun_copy lookup_def update_conv')

text \<open>
  Claim C9, at the call it names: \<open>watch(() => a.x, cb)\<close>, with two arguments, over any
  objects \<open>h\<close>. The call raises a type error. The getter has not run, nothing is
  subscribed, the callback has not been called; and any write \<open>a.x = v\<close> after it
  returns without calling the callback, now or in a later microtask: none is queued.
  The sibling \<open>effect(fn, options = {})\<close> has the default value that \<open>watch\<close> lacks.
\<close>

theorem watch_without_options_raises:
  "\<exists>s1. watch n (Get a (Named ''x'')) reg None (init h) = Some (Raised TypeError s1) \<and>
        log s1 = [] \<and> bucket s1 = (\<lambda>t. None) \<and> objs s1 = h \<and>
        (\<forall>m v. \<exists>s2. eval (Suc m) None (Put a (Named ''x'') (Lit v)) s1 = Some (v, s2) \<and>
                  callbacks s2 = [] \<and> microtasks s2 = [] \<and> w_oldValue (watchers s2 0) = VUndef)"
  by (simp add: watch_def new_effect_def init_def Let_def callbacks_def subs_def depsMap_of_def)

text \<open>The example of the claim: \<open>a.x\<close> is 1, then \<open>a.x = 2\<close>.\<close>

theorem watch_without_options_raises_witness:
  "\<exists>s1 s2. watch 1 (Get 0 (Named ''x'')) False None (init (\<lambda>ob. [(Named ''x'', VNum 1)])) =
        Some (Raised TypeError s1) \<and> log s1 = [] \<and>
      eval 2 None (Put 0 (Named ''x'') (Lit (VNum 2))) s1 = Some (VNum 2, s2) \<and>
      callbacks s2 = []"
  using watch_without_options_raises [of 1 0 False "\<lambda>ob. [(Named ''x'', VNum 1)]"]
  by (metis numeral_2_eq_2)


subsection \<open>The batching scheduler\<close>

text \<open>Writes of the values \<open>vs\<close> to \<open>a.k\<close>, one after the other, from the top level.\<close>

fun writes :: "nat \<Rightarrow> nat \<Rightarrow> key \<Rightarrow> val list \<Rightarrow> state \<Rightarrow> state option" where
  "writes n a k [] s = Some s"
| "writes n a k (v # vs) s =
     (case eval n None (Put a k (Lit v)) s of
        None \<Rightarrow> None
      | Some (u, s1) \<Rightarrow> writes n a k vs s1)"

text \<open>
  The effect \<open>r\<close> reads \<open>a.k\<close>, has the batching scheduler and is the only subscriber of
  \<open>a.k\<close>; the state is at the top level.
\<close>

definition batched :: "state \<Rightarrow> nat \<Rightarrow> key \<Rightarrow> nat \<Rightarrow> bool" where
  "batched s a k r =
     (activeEffect s = None \<and> effectStack s = [] \<and> subs (bucket s) (Obj a) k = [r] \<and>
      scheduler (effs s r) = BatchScheduler \<and> fn (effs s r) = Get a k)"

lemma subs_empty: "subs (\<lambda>t. None) t k = []"
  by (simp add: subs_def depsMap_of_def)

lemma flushJob_idle: "isFlushing s \<Longrightarrow> flushJob s = s"
  by (simp add: flushJob_def)

lemma write_schedules:
  assumes "batched s a k r"
  shows "eval (Suc (Suc n)) None (Put a k (Lit v)) s =
           Some (v, batch_scheduler r (s\<lparr>objs := (objs s)(a := AList.update k v (objs s a))\<rparr>))"
  using assms by (simp add: batched_def)

lemma writes_batched:
  assumes "batched s a k r"
  shows "\<exists>s'. writes (Suc (Suc n)) a k (v # vs) s = Some s' \<and> batched s' a k r \<and>
              jobQueue s' = set_add r (jobQueue s) \<and> isFlushing s' \<and>
              microtasks s' = (if isFlushing s then microtasks s else microtasks s @ [FlushJobs]) \<and>
              log s' = log s"
  using assms
proof (induction vs arbitrary: s v)
  case Nil
  show ?case
    using write_schedules [OF Nil, of n v] Nil
    by (simp add: flushJob_def batch_scheduler_def batched_def del: eval.simps)
next
  case (Cons u us)
  let ?s1 = "batch_scheduler r (s\<lparr>objs := (objs s)(a := AList.update k v (objs s a))\<rparr>)"
  have b1: "batched ?s1 a k r"
    using Cons.prems by (simp add: batched_def flushJob_def batch_scheduler_def)
  from Cons.IH [OF b1, of u] obtain s' where
    s': "writes (Suc (Suc n)) a k (u # us) ?s1 = Some s'" "batched s' a k r"
      "jobQueue s' = set_add r (jobQueue ?s1)" "isFlushing s'"
      "microtasks s' = (if isFlushing ?s1 then microtasks ?s1 else microtasks ?s1 @ [FlushJobs])"
      "log s' = log ?s1"
    by blast
  have "writes (Suc (Suc n)) a k (v # u # us) s = Some s'"
    using s'(1) write_schedules [OF Cons.prems, of n v] by (simp del: eval.simps)
  then show ?case
    using s' by (auto simp: flushJob_def batch_scheduler_def set_add_def)
qed

lemma batched_run:
  assumes "batched s a k r"
  shows "\<exists>v s'. effectFn (Suc n) r s = Some (v, s') \<and> batched s' a k r \<and>
                log s' = log s @ [Run r, Read (Some r) (Obj a) k] \<and>
                jobQueue s' = jobQueue s \<and> microtasks s' = microtasks s \<and>
                isFlushing s' = isFlushing s"
  using assms
  by (auto simp: batched_def Let_def cleanup_def track_def emit_def subs_bucket_add
      subs_fold_bucket_delete set_add_def)

lemma drain_flush:
  assumes "batched s a k r" and "jobQueue s = [r]" and "microtasks s = [FlushJobs]"
  shows "\<exists>s'. drain (Suc (Suc (Suc (Suc n)))) s = Some s' \<and>
              log s' = log s @ [Run r, Read (Some r) (Obj a) k] \<and> \<not> isFlushing s' \<and>
              microtasks s' = [] \<and> jobQueue s' = [r]"
proof -
  have b0: "batched (s\<lparr>microtasks := []\<rparr>) a k r"
    using assms(1) by (simp add: batched_def)
  from batched_run [OF b0, of "Suc n"] obtain v s1 where
    s1: "effectFn (Suc (Suc n)) r (s\<lparr>microtasks := []\<rparr>) = Some (v, s1)" "batched s1 a k r"
      "log s1 = log s @ [Run r, Read (Some r) (Obj a) k]"
      "jobQueue s1 = jobQueue s" "microtasks s1 = []" "isFlushing s1 = isFlushing s"
    by auto
  have "flush_jobs (Suc (Suc (Suc n))) 0 (s\<lparr>microtasks := []\<rparr>) = Some s1"
    using s1 assms(2) by (simp del: effectFn.simps)
  then show ?thesis
    using assms(3) s1 assms(2) by (simp add: run_microtask_def del: effectFn.simps flush_jobs.simps)
qed

lemma batch_scheduler_many:
  assumes "\<not> isFlushing s"
  shows "(batch_scheduler r ^^ Suc N) s =
           s\<lparr>jobQueue := set_add r (jobQueue s), isFlushing := True,
             microtasks := microtasks s @ [FlushJobs]\<rparr>"
proof (induction N)
  case 0
  then show ?case using assms by (simp add: batch_scheduler_def flushJob_def)
next
  case (Suc N)
  then show ?case by (simp add: batch_scheduler_def flushJob_def set_add_def)
qed

text \<open>
  The effect \<open>r\<close> has the batching scheduler: nothing runs it but the flush of the job
  queue.
\<close>

definition only_queued :: "nat \<Rightarrow> state \<Rightarrow> bool" where
  "only_queued r s = (scheduler (effs s r) = BatchScheduler)"

text \<open>
  What a piece of the interpreter that returns does to the job queue and to the number of
  runs of \<open>r\<close>: the queue is only extended, it stays without duplicates, and \<open>r\<close> has
  run \<open>d\<close> more times.
\<close>

definition keeps :: "nat \<Rightarrow> nat \<Rightarrow> state \<Rightarrow> state \<Rightarrow> bool" where
  "keeps r d s s' =
     (effs s' = effs s \<and>
      (\<exists>new. jobQueue s' = jobQueue s @ new \<and> (distinct (jobQueue s) \<longrightarrow> distinct (jobQueue s'))) \<and>
      runs r s' = runs r s + d)"

lemma keeps_refl: "keeps r 0 s s"
  by (simp add: keeps_def)

lemma keeps_trans: "keeps r d1 s s1 \<Longrightarrow> keeps r d2 s1 s2 \<Longrightarrow> keeps r (d1 + d2) s s2"
  unfolding keeps_def by (elim conjE exE) (auto)

lemma keeps_only_queued: "keeps r d s s' \<Longrightarrow> only_queued r s \<Longrightarrow> only_queued r s'"
  by (simp add: keeps_def only_queued_def)

lemma keeps_frame:
  assumes "effs s' = effs s" and "jobQueue s' = jobQueue s" and "runs r s' = runs r s"
  shows "keeps r 0 s s'"
  using assms by (simp add: keeps_def)

lemma keeps_batch: "keeps r 0 s (batch_scheduler e s)"
  by (auto simp: keeps_def batch_scheduler_def flushJob_def set_add_def runs_def)

lemma interp_keeps:
  shows "\<forall>v s'. eval n cur x s = Some (v, s') \<longrightarrow> only_queued r s \<longrightarrow> keeps r 0 s s'"
    and "\<forall>s'. trigger n t k s = Some s' \<longrightarrow> only_queued r s \<longrightarrow> keeps r 0 s s'"
    and "\<forall>s'. run_effects n es s = Some s' \<longrightarrow> only_queued r s \<longrightarrow> keeps r 0 s s'"
    and "\<forall>s'. invoke n e s = Some s' \<longrightarrow> only_queued r s \<longrightarrow> keeps r 0 s s'"
    and "\<forall>s'. job n w s = Some s' \<longrightarrow> only_queued r s \<longrightarrow> w \<noteq> r \<longrightarrow> keeps r 0 s s'"
    and "\<forall>v s'. effectFn n e s = Some (v, s') \<longrightarrow> only_queued r s \<longrightarrow>
           keeps r (if e = r then 1 else 0) s s'"
proof (induction n cur x s and n t k s and n es s and n e s and n w s and n e s
    rule: eval_trigger_run_effects_invoke_job_effectFn.induct)
  case (1 n cur v s)
  then show ?case by (simp add: keeps_refl)
next
  case (2 n cur ob k s)
  then show ?case
    by (auto simp: Let_def keeps_def track_def emit_def runs_def split: option.splits)
next
  case (3 n cur ob k x s)
  show ?case
  proof (intro allI impI)
    fix v s'
    assume ev: "eval n cur (Put ob k x) s = Some (v, s')" and oq: "only_queued r s"
    from ev obtain s1 where
      e1: "eval n cur x s = Some (v, s1)" and
      t1: "trigger n (Obj ob) k (s1\<lparr>objs := (objs s1)(ob := AList.update k v (objs s1 ob))\<rparr>) = Some s'"
      by (auto split: option.splits)
    let ?s1' = "s1\<lparr>objs := (objs s1)(ob := AList.update k v (objs s1 ob))\<rparr>"
    have a: "keeps r 0 s s1" using "3.IH"(1) e1 oq by blast
    have b: "keeps r 0 s1 ?s1'" by (rule keeps_frame) (simp_all add: runs_def)
    have ab: "keeps r 0 s ?s1'" using keeps_trans [OF a b] by simp
    then have "only_queued r ?s1'" using keeps_only_queued oq by blast
    then have c: "keeps r 0 ?s1' s'" using "3.IH"(2) [OF e1 refl] t1 by blast
    show "keeps r 0 s s'" using keeps_trans [OF ab c] by simp
  qed
next
  case (4 n cur a b s)
  show ?case
  proof (intro allI impI)
    fix v s'
    assume ev: "eval n cur (Plus a b) s = Some (v, s')" and oq: "only_queued r s"
    from ev obtain va s1 vb where
      e1: "eval n cur a s = Some (va, s1)" and e2: "eval n cur b s1 = Some (vb, s')"
      by (auto split: option.splits)
    have a: "keeps r 0 s s1" using "4.IH"(1) e1 oq by blast
    then have "only_queued r s1" using keeps_only_queued oq by blast
    then have "keeps r 0 s1 s'" using "4.IH"(2) [OF e1 refl] e2 by blast
    then show "keeps r 0 s s'" using keeps_trans [OF a] by force
  qed
next
  case (5 n cur c a b s)
  show ?case
  proof (intro allI impI)
    fix v s'
    assume ev: "eval n cur (Cond c a b) s = Some (v, s')" and oq: "only_queued r s"
    from ev obtain vc s1 where
      e1: "eval n cur c s = Some (vc, s1)" and
      e2: "(if truthy vc then eval n cur a s1 else eval n cur b s1) = Some (v, s')"
      by (auto split: option.splits)
    have a: "keeps r 0 s s1" using "5.IH"(1) e1 oq by blast
    then have pre: "only_queued r s1" using keeps_only_queued oq by blast
    have "keeps r 0 s1 s'"
    proof (cases "truthy vc")
      case True
      then show ?thesis using "5.IH"(2) [OF e1 refl] e2 pre by auto
    next
      case False
      then show ?thesis using "5.IH"(3) [OF e1 refl] e2 pre by auto
    qed
    then show "keeps r 0 s s'" using keeps_trans [OF a] by force
  qed
next
  case (6 n cur a b s)
  show ?case
  proof (intro allI impI)
    fix v s'
    assume ev: "eval n cur (Seq a b) s = Some (v, s')" and oq: "only_queued r s"
    from ev obtain va s1 where
      e1: "eval n cur a s = Some (va, s1)" and e2: "eval n cur b s1 = Some (v, s')"
      by (auto split: option.splits)
    have a: "keeps r 0 s s1" using "6.IH"(1) e1 oq by blast
    then have "only_queued r s1" using keeps_only_queued oq by blast
    then have "keeps r 0 s1 s'" using "6.IH"(2) [OF e1 refl] e2 by blast
    then show "keeps r 0 s s'" using keeps_trans [OF a] by force
  qed
next
  case (7 n cur c s)
  show ?case
  proof (intro allI impI)
    fix v s'
    assume ev: "eval n cur (CellValue c) s = Some (v, s')" and oq: "only_queued r s"
    show "keeps r 0 s s'"
    proof (cases "scheduler (effs s c) = ComputedScheduler")
      case False
      then show ?thesis using ev by (simp add: keeps_refl)
    next
      case cell: True
      from ev cell obtain s2 where
        rr: "(if dirty (cells s c) then
                (case effectFn n c s of
                   None \<Rightarrow> None
                 | Some (v, s1) \<Rightarrow>
                     Some (s1\<lparr>cells := (cells s1)(c := (cells s1 c)\<lparr>cvalue := v, dirty := False\<rparr>)\<rparr>))
              else Some s) = Some s2" and
        s': "s' = track (Cell c) (Named ''value'') (emit (Read cur (Cell c) (Named ''value'')) s2)"
        by (auto simp: Let_def split: option.splits)
      have ne: "c \<noteq> r" using oq cell by (auto simp: only_queued_def)
      have a: "keeps r 0 s s2"
      proof (cases "dirty (cells s c)")
        case True
        with rr obtain u s1 where
          f: "effectFn n c s = Some (u, s1)" and
          s2: "s2 = s1\<lparr>cells := (cells s1)(c := (cells s1 c)\<lparr>cvalue := u, dirty := False\<rparr>)\<rparr>"
          by (auto split: option.splits)
        have "\<not> scheduler (effs s c) \<noteq> ComputedScheduler" using cell by simp
        from "7.IH" [OF this True] f oq ne have x: "keeps r 0 s s1" by auto
        have "keeps r 0 s1 s2" unfolding s2 by (rule keeps_frame) (simp_all add: runs_def)
        then show ?thesis using keeps_trans [OF x] by force
      next
        case False
        then show ?thesis using rr by (simp add: keeps_refl)
      qed
      have "keeps r 0 s2 s'"
        unfolding s' by (rule keeps_frame) (simp_all add: track_def emit_def runs_def split: option.splits)
      then show "keeps r 0 s s'" using keeps_trans [OF a] by force
    qed
  qed
next
  case (8 target k s)
  then show ?case by simp
next
  case (9 n target k s)
  then show ?case
    by (auto simp: keeps_refl simp del: trigger_runs_subscribers simp add: trigger.simps(2)
        split: option.splits)
next
  case (10 n s)
  then show ?case by (simp add: keeps_refl)
next
  case (11 n e es s)
  show ?case
  proof (intro allI impI)
    fix s'
    assume ev: "run_effects n (e # es) s = Some s'" and oq: "only_queued r s"
    from ev obtain s1 where
      e1: "invoke n e s = Some s1" and e2: "run_effects n es s1 = Some s'"
      by (auto split: option.splits)
    have a: "keeps r 0 s s1" using "11.IH"(1) e1 oq by blast
    then have "only_queued r s1" using keeps_only_queued oq by blast
    then have "keeps r 0 s1 s'" using "11.IH"(2) [OF e1] e2 by blast
    then show "keeps r 0 s s'" using keeps_trans [OF a] by force
  qed
next
  case (12 n e s)
  show ?case
  proof (intro allI impI)
    fix s'
    assume ev: "invoke n e s = Some s'" and oq: "only_queued r s"
    show "keeps r 0 s s'"
    proof (cases "scheduler (effs s e)")
      case NoScheduler
      then have "e \<noteq> r" using oq by (auto simp: only_queued_def)
      then show ?thesis using "12.IH"(1) [OF NoScheduler] ev oq NoScheduler by auto
    next
      case BatchScheduler
      then show ?thesis using ev by (auto simp: keeps_batch)
    next
      case ComputedScheduler
      let ?s1 = "s\<lparr>cells := (cells s)(e := (cells s e)\<lparr>dirty := True\<rparr>)\<rparr>"
      have t: "trigger n (Cell e) (Named ''value'') ?s1 = Some s'"
        using ev ComputedScheduler by simp
      have a: "keeps r 0 s ?s1" by (rule keeps_frame) (simp_all add: runs_def)
      then have "only_queued r ?s1" using keeps_only_queued oq by blast
      then have "keeps r 0 ?s1 s'" using "12.IH"(2) [OF ComputedScheduler] t by blast
      then show ?thesis using keeps_trans [OF a] by force
    next
      case WatchScheduler
      then have ne: "e \<noteq> r" using oq by (auto simp: only_queued_def)
      show ?thesis
      proof (cases "flush_post (watchers s e)")
        case True
        then have "s' = s\<lparr>microtasks := microtasks s @ [WatchJob e]\<rparr>"
          using ev WatchScheduler by simp
        then show ?thesis by (intro keeps_frame) (simp_all add: runs_def)
      next
        case False
        then show ?thesis using "12.IH"(3) [OF WatchScheduler False] ev oq ne WatchScheduler by auto
      qed
    qed
  qed
next
  case (13 n w s)
  show ?case
  proof (intro allI impI)
    fix s'
    assume ev: "job n w s = Some s'" and oq: "only_queued r s" and ne: "w \<noteq> r"
    from ev obtain v s1 where
      f: "effectFn n w s = Some (v, s1)"
      by (auto split: option.splits)
    have a: "keeps r 0 s s1" using "13.IH" f oq ne by auto
    have "keeps r 0 s1 s'"
      using ev f by (intro keeps_frame) (auto simp: Let_def emit_def runs_def)
    then show "keeps r 0 s s'" using keeps_trans [OF a] by force
  qed
next
  case (14 e s)
  then show ?case by simp
next
  case (15 n e s)
  show ?case
  proof (intro allI impI)
    fix v s'
    assume ev: "effectFn (Suc n) e s = Some (v, s')" and oq: "only_queued r s"
    let ?s1 = "cleanup e s"
    let ?s2 = "emit (Run e) (?s1\<lparr>activeEffect := Some e, effectStack := effectStack ?s1 @ [e]\<rparr>)"
    from ev obtain s3 where
      b: "eval n (Some e) (fn (effs ?s2 e)) ?s2 = Some (v, s3)" and
      s': "s' = s3\<lparr>effectStack := butlast (effectStack s3),
                    activeEffect := (if butlast (effectStack s3) = [] then None
                                     else Some (last (butlast (effectStack s3))))\<rparr>"
      by (auto simp: Let_def split: option.splits)
    have a: "keeps r (if e = r then 1 else 0) s ?s2"
      by (auto simp: keeps_def emit_def cleanup_def runs_def)
    then have "only_queued r ?s2" using keeps_only_queued oq by blast
    with "15.IH" [OF refl refl] b have c: "keeps r 0 ?s2 s3" by blast
    have d: "keeps r 0 s3 s'" unfolding s' by (rule keeps_frame) (simp_all add: runs_def)
    have "keeps r (if e = r then 1 else 0) s s3" using keeps_trans [OF a c] by simp
    then show "keeps r (if e = r then 1 else 0) s s'" using keeps_trans [OF _ d] by force
  qed
qed


lemma flush_jobs_counts:
  assumes "flush_jobs n i s = Some s'" and "only_queued r s" and "distinct (jobQueue s)"
  shows "runs r s' = runs r s + (if r \<in> set (drop i (jobQueue s')) then 1 else 0) \<and>
         (\<exists>new. jobQueue s' = jobQueue s @ new) \<and> distinct (jobQueue s')"
  using assms
proof (induction n arbitrary: i s)
  case 0
  then show ?case by simp
next
  case (Suc n)
  show ?case
  proof (cases "i < length (jobQueue s)")
    case False
    then show ?thesis using Suc.prems by simp
  next
    case True
    let ?e = "jobQueue s ! i"
    from Suc.prems(1) True obtain v s1 where
      f: "effectFn n ?e s = Some (v, s1)" and g: "flush_jobs n (Suc i) s1 = Some s'"
      by (auto split: option.splits)
    from interp_keeps(6) [of n ?e s r] f Suc.prems(2)
    have k: "keeps r (if ?e = r then 1 else 0) s s1" by blast
    then obtain new1 where
      q1: "jobQueue s1 = jobQueue s @ new1" and d1: "distinct (jobQueue s1)" and
      r1: "runs r s1 = runs r s + (if ?e = r then 1 else 0)"
      using Suc.prems(3) by (auto simp: keeps_def)
    have oq1: "only_queued r s1" using keeps_only_queued [OF k Suc.prems(2)] .
    from Suc.IH [OF g oq1 d1] obtain new2 where
      r2: "runs r s' = runs r s1 + (if r \<in> set (drop (Suc i) (jobQueue s')) then 1 else 0)" and
      q2: "jobQueue s' = jobQueue s1 @ new2" and d2: "distinct (jobQueue s')"
      by blast
    have q: "jobQueue s' = jobQueue s @ (new1 @ new2)" using q1 q2 by simp
    have at: "jobQueue s' ! i = ?e" using q True by (simp add: nth_append)
    have lt: "i < length (jobQueue s')" using q True by simp
    have dr: "drop i (jobQueue s') = ?e # drop (Suc i) (jobQueue s')"
      using Cons_nth_drop_Suc [OF lt] at by simp
    have "distinct (drop i (jobQueue s'))" using d2 by simp
    then have notin: "?e \<notin> set (drop (Suc i) (jobQueue s'))" unfolding dr by simp
    have "runs r s' = runs r s + (if r \<in> set (drop i (jobQueue s')) then 1 else 0)"
      using r1 r2 notin unfolding dr by auto
    then show ?thesis using q d2 by blast
  qed
qed

lemma flush_jobs_runs_once:
  assumes "flush_jobs n 0 s = Some s'" and "only_queued r s" and "distinct (jobQueue s)"
      and "r \<in> set (jobQueue s)"
  shows "runs r s' = Suc (runs r s)"
proof -
  from flush_jobs_counts [OF assms(1-3)] obtain new where
    "runs r s' = runs r s + (if r \<in> set (drop 0 (jobQueue s')) then 1 else 0)"
    "jobQueue s' = jobQueue s @ new"
    by blast
  then show ?thesis using assms(4) by simp
qed

text \<open>
  The script of the batching variant: an effect over \<open>a.k\<close> with the batching scheduler
  runs once when it is registered; any number of writes of \<open>a.k\<close>, at least one, in one
  synchronous phase schedule it each and do not run it; the microtasks that follow run
  it once, and the flag is cleared.
\<close>

lemma batching_script:
  "\<exists>s1 s2 s3.
     effect (Suc n) (Get a k) False BatchScheduler (init h) = Some (0, s1) \<and>
     runs 0 s1 = 1 \<and>
     writes (Suc (Suc n)) a k (v # vs) s1 = Some s2 \<and>
     runs 0 s2 = 1 \<and> jobQueue s2 = [0] \<and> microtasks s2 = [FlushJobs] \<and> isFlushing s2 \<and>
     drain (Suc (Suc (Suc (Suc n)))) s2 = Some s3 \<and>
     runs 0 s3 = 2 \<and> \<not> isFlushing s3 \<and> microtasks s3 = []"
proof -
  obtain s1 where
    s1: "effect (Suc n) (Get a k) False BatchScheduler (init h) = Some (0, s1)"
      "batched s1 a k 0" "runs 0 s1 = 1" "jobQueue s1 = []" "microtasks s1 = []"
      "\<not> isFlushing s1"
    by (simp add: effect_def new_effect_def init_def Let_def cleanup_def track_def emit_def
        batched_def runs_def subs_bucket_add set_add_def subs_empty)
  from writes_batched [OF s1(2), of n v vs] obtain s2 where
    s2: "writes (Suc (Suc n)) a k (v # vs) s1 = Some s2" "batched s2 a k 0"
      "jobQueue s2 = [0]" "isFlushing s2" "microtasks s2 = [FlushJobs]" "log s2 = log s1"
    using s1(4,5,6) by (auto simp: set_add_def)
  from drain_flush [OF s2(2,3,5), of n] obtain s3 where
    s3: "drain (Suc (Suc (Suc (Suc n)))) s2 = Some s3"
      "log s3 = log s2 @ [Run 0, Read (Some 0) (Obj a) k]" "\<not> isFlushing s3" "microtasks s3 = []"
    by blast
  have "runs 0 s2 = 1" "runs 0 s3 = 2"
    using s1(3) s2(6) s3(2) by (simp_all add: runs_def)
  then show ?thesis
    using s1(1,3) s2 s3 by auto
qed

text \<open>
  Claim C3. For every effect \<open>r\<close>: calling the batching scheduler for \<open>r\<close> any number
  \<open>N + 1\<close> of times, from a state in which no flush is pending, leaves \<open>r\<close> once in the
  job queue, sets the flag and queues one flush; \<open>flushJob\<close> changes nothing while a flush
  is pending; and when \<open>r\<close> has the batching scheduler, a flush that returns, of a queue
  that holds \<open>r\<close>, runs \<open>r\<close> exactly once, whatever the bodies of the effects do. In the
  script above the flush does return: after the effect is registered, one or more writes
  and the microtasks that follow, the effect has run twice, once in the flush.
\<close>

theorem batching_runs_once:
  "(\<forall>s N. \<not> isFlushing s \<longrightarrow>
      (batch_scheduler r ^^ Suc N) s =
        s\<lparr>jobQueue := set_add r (jobQueue s), isFlushing := True,
          microtasks := microtasks s @ [FlushJobs]\<rparr>) \<and>
   (\<forall>s. isFlushing s \<longrightarrow> flushJob s = s) \<and>
   (\<forall>n s s'. only_queued r s \<longrightarrow> distinct (jobQueue s) \<longrightarrow> r \<in> set (jobQueue s) \<longrightarrow>
      flush_jobs n 0 s = Some s' \<longrightarrow> runs r s' = Suc (runs r s)) \<and>
   (\<forall>n a k h v vs. \<exists>s1 s2 s3.
      effect (Suc n) (Get a k) False BatchScheduler (init h) = Some (0, s1) \<and> runs 0 s1 = 1 \<and>
      writes (Suc (Suc n)) a k (v # vs) s1 = Some s2 \<and> runs 0 s2 = 1 \<and>
      drain (Suc (Suc (Suc (Suc n)))) s2 = Some s3 \<and> runs 0 s3 = 2 \<and> \<not> isFlushing s3)"
proof (intro conjI allI impI)
  fix s :: state and N
  assume "\<not> isFlushing s"
  then show "(batch_scheduler r ^^ Suc N) s =
        s\<lparr>jobQueue := set_add r (jobQueue s), isFlushing := True,
          microtasks := microtasks s @ [FlushJobs]\<rparr>"
    by (rule batch_scheduler_many)
next
  fix s :: state
  assume "isFlushing s"
  then show "flushJob s = s" by (rule flushJob_idle)
next
  fix n and s s' :: state
  assume "only_queued r s" "distinct (jobQueue s)" "r \<in> set (jobQueue s)"
    "flush_jobs n 0 s = Some s'"
  then show "runs r s' = Suc (runs r s)" using flush_jobs_runs_once by blast
next
  fix n a k h v vs
  from batching_script [of n a k h v vs]
  show "\<exists>s1 s2 s3.
      effect (Suc n) (Get a k) False BatchScheduler (init h) = Some (0, s1) \<and> runs 0 s1 = 1 \<and>
      writes (Suc (Suc n)) a k (v # vs) s1 = Some s2 \<and> runs 0 s2 = 1 \<and>
      drain (Suc (Suc (Suc (Suc n)))) s2 = Some s3 \<and> runs 0 s3 = 2 \<and> \<not> isFlushing s3"
    by blast
qed

text \<open>
  The state after \<open>effect(() => testObj.age, { scheduler })\<close> with the batching scheduler;
  the effect is scheduled three times, and the queue is flushed.
\<close>

definition batch_demo :: state where
  "batch_demo =
     snd (the (effect 1 (Get 0 (Named ''age'')) False BatchScheduler
                 (init (\<lambda>ob. [(Named ''age'', VNum 18)]))))"

lemma batch_demo_eval:
  "\<not> isFlushing batch_demo" "jobQueue batch_demo = []" "microtasks batch_demo = []"
  "only_queued 0 batch_demo" "runs 0 batch_demo = 1"
  by (simp_all add: batch_demo_def effect_def new_effect_def init_def Let_def cleanup_def
      track_def emit_def only_queued_def runs_def)

theorem batching_runs_once_witness:
  "(batch_scheduler 0 ^^ Suc 2) batch_demo =
     batch_demo\<lparr>jobQueue := [0], isFlushing := True, microtasks := [FlushJobs]\<rparr> \<and>
   flush_jobs 3 0 ((batch_scheduler 0 ^^ Suc 2) batch_demo) \<noteq> None \<and>
   runs 0 (the (flush_jobs 3 0 ((batch_scheduler 0 ^^ Suc 2) batch_demo))) = 2"
proof -
  have a: "(batch_scheduler 0 ^^ Suc 2) batch_demo =
     batch_demo\<lparr>jobQueue := [0], isFlushing := True, microtasks := [FlushJobs]\<rparr>"
  proof -
    have "(batch_scheduler 0 ^^ Suc 2) batch_demo =
            batch_demo\<lparr>jobQueue := set_add 0 (jobQueue batch_demo), isFlushing := True,
                       microtasks := microtasks batch_demo @ [FlushJobs]\<rparr>"
      using batching_runs_once [of 0] batch_demo_eval(1) by blast
    then show ?thesis by (simp add: batch_demo_eval(2,3) set_add_def del: funpow.simps)
  qed
  let ?s = "batch_demo\<lparr>jobQueue := [0], isFlushing := True, microtasks := [FlushJobs]\<rparr>"
  have oq: "only_queued 0 ?s" using batch_demo_eval(4) by (simp add: only_queued_def)
  obtain s' where f: "flush_jobs 3 0 ?s = Some s'"
    by (simp add: numeral_3_eq_3 batch_demo_def effect_def new_effect_def init_def Let_def
        cleanup_def track_def emit_def)
  have "runs 0 s' = Suc (runs 0 ?s)"
    using batching_runs_once [of 0] oq f by (simp del: flush_jobs.simps)
  then have "runs 0 s' = 2" using batch_demo_eval(5) by (simp add: runs_def)
  then show ?thesis using a f by simp
qed

subsection \<open>Dependency precision\<close>

text \<open>
  Two facts that hold at the start and after every operation: an effect that is in the
  set of (target, key) has that set in its \<open>deps\<close>, and the active effect is the top of
  the effect stack.
\<close>

definition linked :: "state \<Rightarrow> bool" where
  "linked s = (\<forall>e t k. e \<in> set (subs (bucket s) t k) \<longrightarrow> (t, k) \<in> set (deps s e))"

definition coherent :: "state \<Rightarrow> bool" where
  "coherent s =
     (activeEffect s = (if effectStack s = [] then None else Some (last (effectStack s))))"

definition store_ok :: "state \<Rightarrow> bool" where
  "store_ok s = (linked s \<and> coherent s)"

lemma coherent_cong:
  "effectStack s' = effectStack s \<Longrightarrow> activeEffect s' = activeEffect s \<Longrightarrow>
   coherent s' = coherent s"
  by (simp add: coherent_def)

lemma linked_cong:
  "bucket s' = bucket s \<Longrightarrow> deps s' = deps s \<Longrightarrow> linked s' = linked s"
  by (simp add: linked_def)

text \<open>
  What a piece of the interpreter that returns preserves: the two facts, the stack and the
  active effect; and for an effect that did not start to run in it, the effect is a
  subscriber afterwards if and only if it was one before or read the pair in it.
\<close>

definition step_ok :: "state \<Rightarrow> state \<Rightarrow> bool" where
  "step_ok s s' =
     (store_ok s' \<and> effectStack s' = effectStack s \<and> activeEffect s' = activeEffect s \<and>
      effs s' = effs s \<and>
      (\<exists>seg. log s' = log s @ seg \<and>
         (\<forall>e t k. Run e \<notin> set seg \<longrightarrow>
            (e \<in> set (subs (bucket s') t k) \<longleftrightarrow>
             e \<in> set (subs (bucket s) t k) \<or> Read (Some e) t k \<in> set seg))))"

lemma step_ok_refl: "store_ok s \<Longrightarrow> step_ok s s"
  by (simp add: step_ok_def)

lemma step_ok_trans:
  assumes "step_ok s s1" and "step_ok s1 s2"
  shows "step_ok s s2"
proof -
  from assms(1) obtain seg1 where
    a: "store_ok s1" "effectStack s1 = effectStack s" "activeEffect s1 = activeEffect s"
       "effs s1 = effs s" "log s1 = log s @ seg1"
       "\<And>e t k. Run e \<notin> set seg1 \<Longrightarrow>
          (e \<in> set (subs (bucket s1) t k) \<longleftrightarrow>
           e \<in> set (subs (bucket s) t k) \<or> Read (Some e) t k \<in> set seg1)"
    unfolding step_ok_def by blast
  from assms(2) obtain seg2 where
    b: "store_ok s2" "effectStack s2 = effectStack s1" "activeEffect s2 = activeEffect s1"
       "effs s2 = effs s1" "log s2 = log s1 @ seg2"
       "\<And>e t k. Run e \<notin> set seg2 \<Longrightarrow>
          (e \<in> set (subs (bucket s2) t k) \<longleftrightarrow>
           e \<in> set (subs (bucket s1) t k) \<or> Read (Some e) t k \<in> set seg2)"
    unfolding step_ok_def by blast
  have "log s2 = log s @ (seg1 @ seg2)" using a(5) b(5) by simp
  moreover have "e \<in> set (subs (bucket s2) t k) \<longleftrightarrow>
           e \<in> set (subs (bucket s) t k) \<or> Read (Some e) t k \<in> set (seg1 @ seg2)"
    if "Run e \<notin> set (seg1 @ seg2)" for e t k
    using that a(6) [of e t k] b(6) [of e t k] by auto
  ultimately show ?thesis
    unfolding step_ok_def using a(2,3,4) b(1,2,3,4) by (metis (no_types, lifting))
qed

fun quiet :: "event \<Rightarrow> bool" where
  "quiet (Run e) = False"
| "quiet (Read c t k) = False"
| "quiet _ = True"

lemma step_ok_frame:
  assumes "store_ok s" and "bucket s' = bucket s" and "deps s' = deps s"
      and "effectStack s' = effectStack s" and "activeEffect s' = activeEffect s"
      and "effs s' = effs s" and "log s' = log s @ seg" and "\<forall>ev \<in> set seg. quiet ev"
  shows "step_ok s s'"
proof -
  have "Run e \<notin> set seg" "Read c t k \<notin> set seg" for e c t k
    using assms(8) by auto
  moreover have "store_ok s'"
    using assms(1-5) linked_cong [of s' s] coherent_cong [of s' s] by (simp add: store_ok_def)
  ultimately show ?thesis
    using assms(2-7) unfolding step_ok_def by auto
qed

lemma linked_track: "linked s \<Longrightarrow> linked (track t k s)"
  by (auto simp: linked_def track_def subs_bucket_add set_add_def split: option.splits)

lemma step_ok_get:
  assumes "store_ok s" and "cur = activeEffect s"
  shows "step_ok s (track t k (emit (Read cur t k) s))"
proof -
  let ?s' = "track t k (emit (Read cur t k) s)"
  have fr: "effectStack ?s' = effectStack s" "activeEffect ?s' = activeEffect s"
    "effs ?s' = effs s" "log ?s' = log s @ [Read cur t k]"
    by (simp_all add: track_def emit_def split: option.splits)
  have "linked (emit (Read cur t k) s)"
    using assms(1) linked_cong [of "emit (Read cur t k) s" s] by (simp add: store_ok_def emit_def)
  then have ok: "store_ok ?s'"
    using assms(1) linked_track coherent_cong [OF fr(1,2)] by (simp add: store_ok_def)
  have mem: "e \<in> set (subs (bucket ?s') t' k') \<longleftrightarrow>
          e \<in> set (subs (bucket s) t' k') \<or> Read (Some e) t' k' \<in> set [Read cur t k]" for e t' k'
    using assms(2)
    by (auto simp: track_def emit_def subs_bucket_add set_add_def split: option.splits)
  show ?thesis
    unfolding step_ok_def using ok fr mem by blast
qed

lemma linked_cleanup: "linked s \<Longrightarrow> linked (cleanup e s)"
  by (auto simp: linked_def cleanup_def subs_fold_bucket_delete split: if_splits)

lemma cleanup_removes:
  "linked s \<Longrightarrow> e \<notin> set (subs (bucket (cleanup e s)) t k)"
  by (auto simp: linked_def cleanup_def subs_fold_bucket_delete)

lemma cleanup_others:
  "e' \<noteq> e \<Longrightarrow> e' \<in> set (subs (bucket (cleanup e s)) t k) \<longleftrightarrow> e' \<in> set (subs (bucket s) t k)"
  by (auto simp: cleanup_def subs_fold_bucket_delete)

lemma interp_step_ok:
  shows "\<forall>v s'. eval n cur x s = Some (v, s') \<longrightarrow> store_ok s \<longrightarrow> activeEffect s = cur \<longrightarrow> step_ok s s'"
    and "\<forall>s'. trigger n t k s = Some s' \<longrightarrow> store_ok s \<longrightarrow> step_ok s s'"
    and "\<forall>s'. run_effects n es s = Some s' \<longrightarrow> store_ok s \<longrightarrow> step_ok s s'"
    and "\<forall>s'. invoke n e s = Some s' \<longrightarrow> store_ok s \<longrightarrow> step_ok s s'"
    and "\<forall>s'. job n w s = Some s' \<longrightarrow> store_ok s \<longrightarrow> step_ok s s'"
    and "\<forall>v s'. effectFn n e s = Some (v, s') \<longrightarrow> store_ok s \<longrightarrow> step_ok s s'"
proof (induction n cur x s and n t k s and n es s and n e s and n w s and n e s
    rule: eval_trigger_run_effects_invoke_job_effectFn.induct)
  case (1 n cur v s)
  then show ?case by (simp add: step_ok_refl)
next
  case (2 n cur ob k s)
  then show ?case by (auto simp: Let_def step_ok_get)
next
  case (3 n cur ob k x s)
  show ?case
  proof (intro allI impI)
    fix v s'
    assume ev: "eval n cur (Put ob k x) s = Some (v, s')" and ok: "store_ok s"
      and act: "activeEffect s = cur"
    from ev obtain s1 where
      e1: "eval n cur x s = Some (v, s1)" and
      t1: "trigger n (Obj ob) k (s1\<lparr>objs := (objs s1)(ob := AList.update k v (objs s1 ob))\<rparr>) = Some s'"
      by (auto split: option.splits)
    let ?s1' = "s1\<lparr>objs := (objs s1)(ob := AList.update k v (objs s1 ob))\<rparr>"
    have a: "step_ok s s1" using "3.IH"(1) e1 ok act by blast
    then have ok1: "store_ok s1" by (simp add: step_ok_def)
    have b: "step_ok s1 ?s1'"
      by (rule step_ok_frame [OF ok1, where seg = "[]"]) simp_all
    then have "store_ok ?s1'" by (simp add: step_ok_def)
    then have c: "step_ok ?s1' s'" using "3.IH"(2) [OF e1 refl] t1 by blast
    show "step_ok s s'"
      using step_ok_trans [OF a step_ok_trans [OF b c]] .
  qed
next
  case (4 n cur a b s)
  show ?case
  proof (intro allI impI)
    fix v s'
    assume ev: "eval n cur (Plus a b) s = Some (v, s')" and ok: "store_ok s"
      and act: "activeEffect s = cur"
    from ev obtain va s1 vb where
      e1: "eval n cur a s = Some (va, s1)" and e2: "eval n cur b s1 = Some (vb, s')"
      by (auto split: option.splits)
    have a: "step_ok s s1" using "4.IH"(1) e1 ok act by blast
    then have "store_ok s1" "activeEffect s1 = cur" using act by (simp_all add: step_ok_def)
    then have "step_ok s1 s'" using "4.IH"(2) [OF e1 refl] e2 by blast
    then show "step_ok s s'" using step_ok_trans [OF a] by blast
  qed
next
  case (5 n cur c a b s)
  show ?case
  proof (intro allI impI)
    fix v s'
    assume ev: "eval n cur (Cond c a b) s = Some (v, s')" and ok: "store_ok s"
      and act: "activeEffect s = cur"
    from ev obtain vc s1 where
      e1: "eval n cur c s = Some (vc, s1)" and
      e2: "(if truthy vc then eval n cur a s1 else eval n cur b s1) = Some (v, s')"
      by (auto split: option.splits)
    have a: "step_ok s s1" using "5.IH"(1) e1 ok act by blast
    then have pre: "store_ok s1" "activeEffect s1 = cur" using act by (simp_all add: step_ok_def)
    have "step_ok s1 s'"
    proof (cases "truthy vc")
      case True
      then show ?thesis using "5.IH"(2) [OF e1 refl] e2 pre by auto
    next
      case False
      then show ?thesis using "5.IH"(3) [OF e1 refl] e2 pre by auto
    qed
    then show "step_ok s s'" using step_ok_trans [OF a] by blast
  qed
next
  case (6 n cur a b s)
  show ?case
  proof (intro allI impI)
    fix v s'
    assume ev: "eval n cur (Seq a b) s = Some (v, s')" and ok: "store_ok s"
      and act: "activeEffect s = cur"
    from ev obtain va s1 where
      e1: "eval n cur a s = Some (va, s1)" and e2: "eval n cur b s1 = Some (v, s')"
      by (auto split: option.splits)
    have a: "step_ok s s1" using "6.IH"(1) e1 ok act by blast
    then have "store_ok s1" "activeEffect s1 = cur" using act by (simp_all add: step_ok_def)
    then have "step_ok s1 s'" using "6.IH"(2) [OF e1 refl] e2 by blast
    then show "step_ok s s'" using step_ok_trans [OF a] by blast
  qed
next
  case (7 n cur c s)
  show ?case
  proof (intro allI impI)
    fix v s'
    assume ev: "eval n cur (CellValue c) s = Some (v, s')" and ok: "store_ok s"
      and act: "activeEffect s = cur"
    show "step_ok s s'"
    proof (cases "scheduler (effs s c) = ComputedScheduler")
      case False
      then show ?thesis using ev ok by (simp add: step_ok_refl)
    next
      case cell: True
      from ev cell obtain s2 where
        r: "(if dirty (cells s c) then
                (case effectFn n c s of
                   None \<Rightarrow> None
                 | Some (v, s1) \<Rightarrow>
                     Some (s1\<lparr>cells := (cells s1)(c := (cells s1 c)\<lparr>cvalue := v, dirty := False\<rparr>)\<rparr>))
              else Some s) = Some s2" and
        s': "s' = track (Cell c) (Named ''value'') (emit (Read cur (Cell c) (Named ''value'')) s2)"
        by (auto simp: Let_def split: option.splits)
      have a: "step_ok s s2"
      proof (cases "dirty (cells s c)")
        case True
        with r obtain u s1 where
          f: "effectFn n c s = Some (u, s1)" and
          s2: "s2 = s1\<lparr>cells := (cells s1)(c := (cells s1 c)\<lparr>cvalue := u, dirty := False\<rparr>)\<rparr>"
          by (auto split: option.splits)
        have "\<not> scheduler (effs s c) \<noteq> ComputedScheduler" using cell by simp
        from "7.IH" [OF this True] f ok have x: "step_ok s s1" by blast
        then have "store_ok s1" by (simp add: step_ok_def)
        then have "step_ok s1 s2"
          unfolding s2 by (rule step_ok_frame [where seg = "[]"]) simp_all
        then show ?thesis using step_ok_trans [OF x] by blast
      next
        case False
        then show ?thesis using r ok by (simp add: step_ok_refl)
      qed
      then have "store_ok s2" "activeEffect s2 = cur" using act by (simp_all add: step_ok_def)
      then have "step_ok s2 s'" unfolding s' by (simp add: step_ok_get)
      then show "step_ok s s'" using step_ok_trans [OF a] by blast
    qed
  qed
next
  case (8 target k s)
  then show ?case by simp
next
  case (9 n target k s)
  then show ?case
    by (auto simp: step_ok_refl simp del: trigger_runs_subscribers simp add: trigger.simps(2)
        split: option.splits)
next
  case (10 n s)
  then show ?case by (simp add: step_ok_refl)
next
  case (11 n e es s)
  show ?case
  proof (intro allI impI)
    fix s'
    assume ev: "run_effects n (e # es) s = Some s'" and ok: "store_ok s"
    from ev obtain s1 where
      e1: "invoke n e s = Some s1" and e2: "run_effects n es s1 = Some s'"
      by (auto split: option.splits)
    have a: "step_ok s s1" using "11.IH"(1) e1 ok by blast
    then have "store_ok s1" by (simp add: step_ok_def)
    then have "step_ok s1 s'" using "11.IH"(2) [OF e1] e2 by blast
    then show "step_ok s s'" using step_ok_trans [OF a] by blast
  qed
next
  case (12 n e s)
  show ?case
  proof (intro allI impI)
    fix s'
    assume ev: "invoke n e s = Some s'" and ok: "store_ok s"
    show "step_ok s s'"
    proof (cases "scheduler (effs s e)")
      case NoScheduler
      then show ?thesis using "12.IH"(1) ev ok by auto
    next
      case BatchScheduler
      then have "s' = batch_scheduler e s" using ev by simp
      then show ?thesis
        using ok
        by (intro step_ok_frame [where seg = "[]"])
           (simp_all add: batch_scheduler_def flushJob_def)
    next
      case ComputedScheduler
      let ?s1 = "s\<lparr>cells := (cells s)(e := (cells s e)\<lparr>dirty := True\<rparr>)\<rparr>"
      have t: "trigger n (Cell e) (Named ''value'') ?s1 = Some s'"
        using ev ComputedScheduler by simp
      have a: "step_ok s ?s1"
        by (rule step_ok_frame [OF ok, where seg = "[]"]) simp_all
      then have "store_ok ?s1" by (simp add: step_ok_def)
      then have "step_ok ?s1 s'" using "12.IH"(2) [OF ComputedScheduler] t by blast
      then show ?thesis using step_ok_trans [OF a] by blast
    next
      case WatchScheduler
      show ?thesis
      proof (cases "flush_post (watchers s e)")
        case True
        then have "s' = s\<lparr>microtasks := microtasks s @ [WatchJob e]\<rparr>"
          using ev WatchScheduler by simp
        then show ?thesis
          using ok by (intro step_ok_frame [where seg = "[]"]) simp_all
      next
        case False
        then show ?thesis using "12.IH"(3) [OF WatchScheduler False] ev ok WatchScheduler by auto
      qed
    qed
  qed
next
  case (13 n w s)
  show ?case
  proof (intro allI impI)
    fix s'
    assume ev: "job n w s = Some s'" and ok: "store_ok s"
    from ev obtain v s1 where
      f: "effectFn n w s = Some (v, s1)"
      by (auto split: option.splits)
    have a: "step_ok s s1" using "13.IH" f ok by blast
    then have ok1: "store_ok s1" by (simp add: step_ok_def)
    have "\<exists>seg. (\<forall>ev \<in> set seg. quiet ev) \<and> bucket s' = bucket s1 \<and> deps s' = deps s1 \<and>
            effectStack s' = effectStack s1 \<and> activeEffect s' = activeEffect s1 \<and>
            effs s' = effs s1 \<and> log s' = log s1 @ seg"
    proof (cases "wcleanup (watchers s1 w)")
      case True
      then show ?thesis
        using ev f
        by (intro exI [where x = "[Invalidate w, Callback w v (w_oldValue (watchers s1 w))]"])
           (auto simp: Let_def emit_def)
    next
      case False
      then show ?thesis
        using ev f
        by (intro exI [where x = "[Callback w v (w_oldValue (watchers s1 w))]"])
           (auto simp: Let_def emit_def)
    qed
    then have "step_ok s1 s'" using step_ok_frame [OF ok1] by blast
    then show "step_ok s s'" using step_ok_trans [OF a] by blast
  qed
next
  case (14 e s)
  then show ?case by simp
next
  case (15 n e s)
  show ?case
  proof (intro allI impI)
    fix v s'
    assume ev: "effectFn (Suc n) e s = Some (v, s')" and ok: "store_ok s"
    let ?s1 = "cleanup e s"
    let ?s2 = "emit (Run e) (?s1\<lparr>activeEffect := Some e, effectStack := effectStack ?s1 @ [e]\<rparr>)"
    from ev obtain s3 where
      b: "eval n (Some e) (fn (effs ?s2 e)) ?s2 = Some (v, s3)" and
      s': "s' = s3\<lparr>effectStack := butlast (effectStack s3),
                    activeEffect := (if butlast (effectStack s3) = [] then None
                                     else Some (last (butlast (effectStack s3))))\<rparr>"
      by (auto simp: Let_def split: option.splits)
    have lk: "linked ?s2"
      using ok linked_cleanup [of s e] linked_cong [of ?s2 ?s1] by (simp add: store_ok_def emit_def)
    have ok2: "store_ok ?s2"
      using lk by (simp add: store_ok_def coherent_def emit_def cleanup_def)
    have act2: "activeEffect ?s2 = Some e" by (simp add: emit_def)
    from "15.IH" [OF refl refl] b ok2 act2 have st: "step_ok ?s2 s3" by blast
    then obtain seg where
      c: "store_ok s3" "effectStack s3 = effectStack s @ [e]" "effs s3 = effs s"
         "log s3 = log s @ Run e # seg"
         "\<And>e' t k. Run e' \<notin> set seg \<Longrightarrow>
            (e' \<in> set (subs (bucket s3) t k) \<longleftrightarrow>
             e' \<in> set (subs (bucket ?s2) t k) \<or> Read (Some e') t k \<in> set seg)"
      unfolding step_ok_def by (auto simp: emit_def cleanup_def)
    have coh: "coherent s" using ok by (simp add: store_ok_def)
    have stk: "effectStack s' = effectStack s" unfolding s' using c(2) by simp
    have act: "activeEffect s' = activeEffect s"
      unfolding s' using c(2) coh by (simp add: coherent_def)
    have ok': "store_ok s'"
      using c(1) coh stk act linked_cong [of s' s3] coherent_cong [of s' s]
      by (simp add: store_ok_def s')
    have mem: "e' \<in> set (subs (bucket s') t k) \<longleftrightarrow>
            e' \<in> set (subs (bucket s) t k) \<or> Read (Some e') t k \<in> set (Run e # seg)"
      if "Run e' \<notin> set (Run e # seg)" for e' t k
    proof -
      from that have ne: "e' \<noteq> e" and ns: "Run e' \<notin> set seg" by auto
      have "e' \<in> set (subs (bucket ?s2) t k) \<longleftrightarrow> e' \<in> set (subs (bucket s) t k)"
        using cleanup_others [OF ne, of s t k] by (simp add: emit_def)
      then show ?thesis using c(5) [OF ns, of t k] by (simp add: s')
    qed
    show "step_ok s s'"
      unfolding step_ok_def using ok' stk act c(3,4) mem by (auto simp: s')
  qed
qed

lemma store_ok_init: "store_ok (init h)"
  by (simp add: store_ok_def linked_def coherent_def init_def subs_def depsMap_of_def)

lemma count_list_zero: "count_list xs x = 0 \<longleftrightarrow> x \<notin> set xs"
  by (induction xs) auto

text \<open>
  Claim C4, amended. For every effect \<open>e\<close> and every run of \<open>e\<close> that returns and in which
  \<open>e\<close> starts once (the run does not start \<open>e\<close> again through a trigger), from a state
  with the two facts above: after the run, \<open>e\<close> is in the set of subscribers of
  (target, key) if and only if the body of \<open>e\<close> read (target, key) during the run. The
  reads of the run are the reads logged by it: what the run added to the log. The two
  facts hold again after the run.
\<close>

theorem effect_subscribed_to_exactly_its_reads:
  assumes "effectFn n e s = Some (v, s')" and "store_ok s"
      and "count_list (drop (length (log s)) (log s')) (Run e) = 1"
  shows "(e \<in> set (subs (bucket s') t k) \<longleftrightarrow>
          Read (Some e) t k \<in> set (drop (length (log s)) (log s'))) \<and> store_ok s'"
proof -
  from assms(1) obtain m where n: "n = Suc m" by (cases n) auto
  let ?s1 = "cleanup e s"
  let ?s2 = "emit (Run e) (?s1\<lparr>activeEffect := Some e, effectStack := effectStack ?s1 @ [e]\<rparr>)"
  from assms(1) obtain s3 where
    b: "eval m (Some e) (fn (effs ?s2 e)) ?s2 = Some (v, s3)" and
    s': "s' = s3\<lparr>effectStack := butlast (effectStack s3),
                  activeEffect := (if butlast (effectStack s3) = [] then None
                                   else Some (last (butlast (effectStack s3))))\<rparr>"
    unfolding n by (auto simp: Let_def split: option.splits)
  have lk: "linked ?s2"
    using assms(2) linked_cleanup [of s e] linked_cong [of ?s2 ?s1]
    by (simp add: store_ok_def emit_def)
  have ok2: "store_ok ?s2"
    using lk by (simp add: store_ok_def coherent_def emit_def cleanup_def)
  have act2: "activeEffect ?s2 = Some e" by (simp add: emit_def)
  from interp_step_ok(1) [of m "Some e" "fn (effs ?s2 e)" ?s2] b ok2 act2
  have "step_ok ?s2 s3" by blast
  then obtain seg where
    c: "log s3 = log s @ Run e # seg"
       "\<And>e' t k. Run e' \<notin> set seg \<Longrightarrow>
          (e' \<in> set (subs (bucket s3) t k) \<longleftrightarrow>
           e' \<in> set (subs (bucket ?s2) t k) \<or> Read (Some e') t k \<in> set seg)"
    unfolding step_ok_def by (auto simp: emit_def cleanup_def)
  have seg: "drop (length (log s)) (log s') = Run e # seg"
    using c(1) by (simp add: s')
  have once: "Run e \<notin> set seg"
    using assms(3) unfolding seg by (simp add: count_list_zero)
  have none: "e \<notin> set (subs (bucket ?s2) t k)"
    using cleanup_removes [of s e t k] assms(2) by (simp add: store_ok_def emit_def)
  have "e \<in> set (subs (bucket s') t k) \<longleftrightarrow> Read (Some e) t k \<in> set seg"
    using c(2) [OF once, of t k] none by (simp add: s')
  moreover have "store_ok s'"
    using interp_step_ok(6) [of n e s] assms(1,2) by (auto simp: step_ok_def)
  ultimately show ?thesis
    unfolding seg by simp
qed

text \<open>
  A run that starts its own effect again. \<open>E2\<close> is \<open>if (a.w) a.c = 1\<close>, and \<open>E\<close> is
  \<open>if (!a.c) { a.k; a.w = 1 }\<close>. The first run of \<open>E\<close> reads \<open>a.c\<close> and \<open>a.k\<close> and
  writes \<open>a.w\<close>; that runs \<open>E2\<close>, which writes \<open>a.c\<close>; that runs \<open>E\<close> again, inside its
  first run and with \<open>E2\<close> as the active effect: \<open>cleanup\<close> removes the subscriptions
  of the first run, and the second run reads \<open>a.c\<close> only.
\<close>

definition reentrant_E2 :: expr where
  "reentrant_E2 = Cond (Get 0 (Named ''w'')) (Put 0 (Named ''c'') (Lit (VNum 1))) (Lit VUndef)"

definition reentrant_E :: expr where
  "reentrant_E =
     Cond (Get 0 (Named ''c'')) (Lit VUndef)
       (Seq (Get 0 (Named ''k'')) (Put 0 (Named ''w'') (Lit (VNum 1))))"

definition reentrant_run :: "(nat \<times> state) option" where
  "reentrant_run =
     (case effect 9 reentrant_E2 False NoScheduler
             (init (\<lambda>ob. [(Named ''c'', VNum 0), (Named ''k'', VNum 5), (Named ''w'', VNum 0)])) of
        None \<Rightarrow> None
      | Some (e2, s1) \<Rightarrow> effect 9 reentrant_E False NoScheduler s1)"


text \<open>
  Claim C4, as stated, at that run: the first run of \<open>E\<close> (effect 1) returns, \<open>E\<close> read
  \<open>a.k\<close> during it, and \<open>E\<close> is not a subscriber of \<open>a.k\<close> after it.
\<close>

theorem reentrant_run_drops_a_read:
  "reentrant_run \<noteq> None \<and> fst (the reentrant_run) = 1 \<and>
   Read (Some 1) (Obj 0) (Named ''k'') \<in> set (log (snd (the reentrant_run))) \<and>
   1 \<notin> set (subs (bucket (snd (the reentrant_run))) (Obj 0) (Named ''k'')) \<and>
   count_list (log (snd (the reentrant_run))) (Run 1) = 2"
  by (simp add: reentrant_run_def reentrant_E_def reentrant_E2_def effect_def new_effect_def
      init_def Let_def cleanup_def track_def emit_def eval_nat_numeral lookup_def update_conv'
      bucket_add_def bucket_delete_def subs_def depsMap_of_def set_add_def set_delete_def)

text \<open>
  An effect over \<open>a.ok ? a.x : a.y\<close>: it ran with \<open>a.ok\<close> true; then \<open>a.ok\<close> is false
  and it runs again. After the second run it is a subscriber of \<open>a.y\<close> and no more of
  \<open>a.x\<close>.
\<close>

definition toggle_state :: state where
  "toggle_state =
     (snd (the (effect 1
        (Cond (Get 0 (Named ''ok'')) (Get 0 (Named ''x'')) (Get 0 (Named ''y''))) False NoScheduler
        (init (\<lambda>ob. [(Named ''ok'', VBool True), (Named ''x'', VNum 1), (Named ''y'', VNum 2)])))))
     \<lparr>objs := (\<lambda>ob. [(Named ''ok'', VBool False), (Named ''x'', VNum 1), (Named ''y'', VNum 2)])\<rparr>"

lemma toggle_state_eval:
  "bucket toggle_state (Obj 0) = Some [(Named ''ok'', [0]), (Named ''x'', [0])]"
  by (simp add: toggle_state_def effect_def new_effect_def init_def Let_def cleanup_def track_def
      emit_def lookup_def bucket_add_def subs_def depsMap_of_def set_add_def)

theorem effect_subscribed_to_exactly_its_reads_witness:
  "0 \<in> set (subs (bucket toggle_state) (Obj 0) (Named ''x'')) \<and>
   effectFn 1 0 toggle_state \<noteq> None \<and>
   0 \<notin> set (subs (bucket (snd (the (effectFn 1 0 toggle_state)))) (Obj 0) (Named ''x'')) \<and>
   0 \<in> set (subs (bucket (snd (the (effectFn 1 0 toggle_state)))) (Obj 0) (Named ''y''))"
proof -
  have ok: "store_ok toggle_state"
    by (auto simp: store_ok_def linked_def coherent_def toggle_state_def effect_def new_effect_def
        init_def Let_def cleanup_def track_def emit_def lookup_def bucket_add_def subs_def
        depsMap_of_def set_add_def split: if_splits)
  obtain v s' where run: "effectFn 1 0 toggle_state = Some (v, s')"
    and lg: "drop (length (log toggle_state)) (log s') =
               [Run 0, Read (Some 0) (Obj 0) (Named ''ok''), Read (Some 0) (Obj 0) (Named ''y'')]"
    by (simp add: toggle_state_def effect_def new_effect_def init_def Let_def cleanup_def
        track_def emit_def lookup_def)
  have once: "count_list (drop (length (log toggle_state)) (log s')) (Run 0) = 1"
    unfolding lg by simp
  from effect_subscribed_to_exactly_its_reads [OF run ok once, of "Obj 0" "Named ''x''"]
       effect_subscribed_to_exactly_its_reads [OF run ok once, of "Obj 0" "Named ''y''"]
  have "0 \<notin> set (subs (bucket s') (Obj 0) (Named ''x''))"
       "0 \<in> set (subs (bucket s') (Obj 0) (Named ''y''))"
    unfolding lg by simp_all
  moreover have "0 \<in> set (subs (bucket toggle_state) (Obj 0) (Named ''x''))"
    by (simp add: toggle_state_eval subs_def depsMap_of_def)
  ultimately show ?thesis using run by simp
qed

end
